theory Spec2Isabelle
  imports Main "HOL-Library.Word" "HOL-Library.AList"
begin

unbundle bit_operations_syntax

section \<open>Data model\<close>

text \<open>
  Go's \<open>byte\<close>, \<open>int32\<close>/\<open>uint32\<close> and \<open>int64\<close>/\<open>uint64\<close> are words of the
  given width; the conversions \<open>int32(partition)\<close> and \<open>int64(offset)\<close> keep the bits,
  so one word type serves both readings (\<open>sint\<close> is the signed one). A Go \<open>string\<close> is
  a sequence of bytes, as a HOL \<open>string\<close> is.
\<close>

type_synonym byte = "8 word"
type_synonym uint16 = "16 word"
type_synonym int32 = "32 word"
type_synonym int64 = "64 word"

text \<open>\<open>types.go\<close>: \<open>PartitionOffset\<close>.\<close>

record PartitionOffset =
  Topic :: string
  Partition :: int32
  Offset :: int64
  Timestamp :: int64
  Group :: string

text \<open>
  Modelled from the spec: the declarations of \<open>POffsetMap\<close>, \<open>TPOffsetMap\<close> and
  \<open>GTPOffsetMap\<close> are not among the source files; the spec gives the Consumer Offset
  Table as \<open>group -> (topic -> (partition -> offset))\<close> and the Broker Offset Table as
  \<open>topic -> (partition -> offset)\<close>, and the code indexes them with a string, a string
  and an \<open>int32\<close> and stores an \<open>int64\<close>. A Go map is an association list here: the
  order of the list is one order in which \<open>range\<close> may visit the keys.
\<close>

type_synonym POffsetMap = "(int32 \<times> int64) list"
type_synonym TPOffsetMap = "(string \<times> POffsetMap) list"
type_synonym GTPOffsetMap = "(string \<times> TPOffsetMap) list"

text \<open>
  \<open>m[k]\<close> on a Go map whose values are maps or slices: the nil map or slice (nothing in
  it) when the key is absent.
\<close>

definition index_map :: "('k \<times> 'v list) list \<Rightarrow> 'k \<Rightarrow> 'v list" where
  "index_map m k = (case map_of m k of None \<Rightarrow> [] | Some v \<Rightarrow> v)"

text \<open>\<open>m[k]\<close> on a \<open>POffsetMap\<close>: the zero value 0 when the key is absent.\<close>

definition index_offset :: "POffsetMap \<Rightarrow> int32 \<Rightarrow> int64" where
  "index_offset m k = (case map_of m k of None \<Rightarrow> 0 | Some v \<Rightarrow> v)"

text \<open>The two-valued form \<open>v, ok := m[g][t][p]\<close>: the lookup of the Consumer Offset Table.\<close>

definition lookupConsumerOffset :: "GTPOffsetMap \<Rightarrow> string \<Rightarrow> string \<Rightarrow> int32 \<Rightarrow> int64 option" where
  "lookupConsumerOffset store grp topic partn =
     map_of (index_map (index_map store grp) topic) partn"

definition lookupBrokerOffset :: "TPOffsetMap \<Rightarrow> string \<Rightarrow> int32 \<Rightarrow> int64 option" where
  "lookupBrokerOffset store topic partn = map_of (index_map store topic) partn"

section \<open>Offset codec\<close>

text \<open>
  The errors the decoder can log: \<open>io.EOF\<close> and \<open>io.ErrUnexpectedEOF\<close> from
  \<open>binary.Read\<close>, and \<open>fmt.Errorf("string underflow")\<close> from \<open>readString\<close>.
\<close>

datatype error = EOF | ErrUnexpectedEOF | StringUnderflow

text \<open>
  A \<open>bytes.Buffer\<close> is the list of its unread bytes. \<open>io.ReadFull\<close> on it (the fixed-size
  path of \<open>binary.Read\<close>) hands out \<open>n\<close> bytes when that many are left; otherwise it
  drains the buffer and fails with \<open>EOF\<close> if nothing was read, \<open>ErrUnexpectedEOF\<close>
  if some bytes were.
\<close>

definition ReadFull :: "nat \<Rightarrow> byte list \<Rightarrow> (error + byte list) \<times> byte list" where
  "ReadFull n buf =
     (if n \<le> length buf then (Inr (take n buf), drop n buf)
      else if buf = [] then (Inl EOF, [])
      else (Inl ErrUnexpectedEOF, []))"

text \<open>\<open>binary.BigEndian.Uint16/32/64\<close>: the first byte is the most significant.\<close>

definition BigEndian :: "byte list \<Rightarrow> 'a::len word" where
  "BigEndian bs = foldl (\<lambda>acc b. push_bit 8 acc OR ucast b) 0 bs"

text \<open>\<open>binary.Read(buf, binary.BigEndian, &x)\<close> for an unsigned \<open>x\<close> of \<open>n\<close> bytes.\<close>

definition binary_Read :: "nat \<Rightarrow> byte list \<Rightarrow> (error + 'a::len word) \<times> byte list" where
  "binary_Read n buf =
     (case ReadFull n buf of
        (Inl err, buf') \<Rightarrow> (Inl err, buf')
      | (Inr bs, buf') \<Rightarrow> (Inr (BigEndian bs), buf'))"

text \<open>
  \<open>buf.Read(p)\<close> with \<open>len(p) = n\<close>: on an empty buffer it returns \<open>(0, nil)\<close> when
  \<open>n = 0\<close> and \<open>(0, io.EOF)\<close> otherwise; else it copies what fits. The result is the
  count, the error, the bytes copied, and the buffer left.
\<close>

definition Buffer_Read :: "nat \<Rightarrow> byte list \<Rightarrow> nat \<times> error option \<times> byte list \<times> byte list" where
  "Buffer_Read n buf =
     (if buf = [] then (0, if n = 0 then None else Some EOF, [], [])
      else (min n (length buf), None, take n buf, drop n buf))"

text \<open>\<open>string(strbytes)\<close>.\<close>

definition string_of_bytes :: "byte list \<Rightarrow> string" where
  "string_of_bytes bs = map (\<lambda>b. char_of (unat b)) bs"

text \<open>The closure \<open>readString\<close> of \<open>formatConsumerOffsetMessage\<close>.\<close>

definition readString :: "byte list \<Rightarrow> (error + string) \<times> byte list" where
  "readString buf =
     (case binary_Read 2 buf of
        (Inl err, buf') \<Rightarrow> (Inl err, buf')
      | (Inr (strlen :: uint16), buf') \<Rightarrow>
          (case Buffer_Read (unat strlen) buf' of
             (n, err, strbytes, buf'') \<Rightarrow>
               if err \<noteq> None \<or> n \<noteq> unat strlen then (Inl StringUnderflow, buf'')
               else (Inr (string_of_bytes strbytes), buf'')))"

text \<open>
  The key half of \<open>formatConsumerOffsetMessage\<close> on its own (from
  \<open>bytes.NewBuffer(message.Key)\<close> to the end of the \<open>switch\<close>): \<open>Inl err\<close> is a
  branch \<open>logError(err); return\<close>, \<open>Inr\<close> carries the variables \<open>group\<close>,
  \<open>topic\<close> and \<open>partition\<close> when the \<open>switch\<close> falls through.
\<close>

definition decodeKey :: "byte list \<Rightarrow> error option + string \<times> string \<times> int32" where
  "decodeKey key =
     (case binary_Read 2 key of
        (r, buf) \<Rightarrow>
          let err = (case r of Inl e \<Rightarrow> Some e | Inr _ \<Rightarrow> None);
              keyver = (case r of Inl _ \<Rightarrow> 0 | Inr v \<Rightarrow> (v :: uint16))
          in if keyver = 0 \<or> keyver = 1 then
               (case readString buf of
                  (Inl err, _) \<Rightarrow> Inl (Some err)
                | (Inr grp, buf) \<Rightarrow>
                    (case readString buf of
                       (Inl err, _) \<Rightarrow> Inl (Some err)
                     | (Inr topic, buf) \<Rightarrow>
                         (case binary_Read 4 buf of
                            (Inl err, _) \<Rightarrow> Inl (Some err)
                          | (Inr partn, _) \<Rightarrow> Inr (grp, topic, partn))))
             else if keyver = 2 then Inl err
             else Inl err)"

text \<open>
  The value half on its own (from \<open>bytes.NewBuffer(message.Value)\<close> to the last
  \<open>binary.Read\<close>); \<open>Inr\<close> carries \<open>offset\<close> and \<open>timestamp\<close>.
\<close>

definition decodeValue :: "byte list \<Rightarrow> error option + int64 \<times> int64" where
  "decodeValue val =
     (case binary_Read 2 val of
        (r, buf) \<Rightarrow>
          let err = (case r of Inl e \<Rightarrow> Some e | Inr _ \<Rightarrow> None);
              valver = (case r of Inl _ \<Rightarrow> 0 | Inr v \<Rightarrow> (v :: uint16))
          in if err \<noteq> None \<or> (valver \<noteq> 0 \<and> valver \<noteq> 1) then Inl err
             else
               (case binary_Read 8 buf of
                  (Inl err, _) \<Rightarrow> Inl (Some err)
                | (Inr offset, buf) \<Rightarrow>
                    (case readString buf of
                       (Inl err, _) \<Rightarrow> Inl (Some err)
                     | (Inr _, buf) \<Rightarrow>
                         (case binary_Read 8 buf of
                            (Inl err, _) \<Rightarrow> Inl (Some err)
                          | (Inr timestamp, _) \<Rightarrow> Inr (offset, timestamp)))))"

section \<open>Consumer Offset Table\<close>

text \<open>
  \<open>storeConsumerOffset\<close>, the table passed in and returned; the mutex is not modelled.
  The inner maps are created when missing, then the offset is written.
\<close>

definition storeConsumerOffset :: "GTPOffsetMap \<Rightarrow> PartitionOffset \<Rightarrow> GTPOffsetMap" where
  "storeConsumerOffset store newOffset =
     (let grp = Group newOffset; topic = Topic newOffset;
          partn = Partition newOffset; offset = Offset newOffset;
          store1 = (if map_of store grp = None then AList.update grp [] store else store);
          store2 = (if map_of (index_map store1 grp) topic = None
                    then AList.update grp (AList.update topic [] (index_map store1 grp)) store1
                    else store1)
      in AList.update grp
           (AList.update topic
              (AList.update partn offset (index_map (index_map store2 grp) topic))
              (index_map store2 grp))
           store2)"

text \<open>
  A Go map holds each key once. On the association lists this is the invariant
  \<open>unique_keys\<close>: no group twice, no topic twice under a group, no partition twice under
  a topic.
\<close>

definition unique_keys :: "GTPOffsetMap \<Rightarrow> bool" where
  "unique_keys store \<longleftrightarrow>
     distinct (map fst store) \<and>
     list_all (\<lambda>(grp, gbody).
       distinct (map fst gbody) \<and>
       list_all (\<lambda>(topic, tbody). distinct (map fst tbody)) gbody) store"

text \<open>\<open>sarama.ConsumerMessage\<close>, the two fields the parser reads.\<close>

record ConsumerMessage =
  Key :: "byte list"
  Value :: "byte list"

text \<open>
  \<open>formatConsumerOffsetMessage\<close>, statement by statement: the result is the table after
  the call and what \<open>logError\<close> was given (\<open>None\<close> is a nil error; nothing is logged
  on the path that reaches \<open>storeConsumerOffset\<close>). The error of the first
  \<open>binary.Read\<close> of the key is not tested before the \<open>switch\<close>: when that read
  fails, \<open>keyver\<close> keeps its zero value.
\<close>

definition formatConsumerOffsetMessage ::
    "GTPOffsetMap \<Rightarrow> ConsumerMessage \<Rightarrow> GTPOffsetMap \<times> error option list" where
  "formatConsumerOffsetMessage store message =
     (case binary_Read 2 (Key message) of
        (r, buf) \<Rightarrow>
          let err = (case r of Inl e \<Rightarrow> Some e | Inr _ \<Rightarrow> None);
              keyver = (case r of Inl _ \<Rightarrow> 0 | Inr v \<Rightarrow> (v :: uint16))
          in if keyver = 0 \<or> keyver = 1 then
               (case readString buf of
                  (Inl err, _) \<Rightarrow> (store, [Some err])
                | (Inr grp, buf) \<Rightarrow>
               (case readString buf of
                  (Inl err, _) \<Rightarrow> (store, [Some err])
                | (Inr topic, buf) \<Rightarrow>
               (case binary_Read 4 buf of
                  (Inl err, _) \<Rightarrow> (store, [Some err])
                | (Inr (partn :: int32), _) \<Rightarrow>
               (case binary_Read 2 (Value message) of
                  (r, buf) \<Rightarrow>
                    let err = (case r of Inl e \<Rightarrow> Some e | Inr _ \<Rightarrow> None);
                        valver = (case r of Inl _ \<Rightarrow> 0 | Inr v \<Rightarrow> (v :: uint16))
                    in if err \<noteq> None \<or> (valver \<noteq> 0 \<and> valver \<noteq> 1) then (store, [err])
                       else
               (case binary_Read 8 buf of
                  (Inl err, _) \<Rightarrow> (store, [Some err])
                | (Inr (offset :: int64), buf) \<Rightarrow>
               (case readString buf of
                  (Inl err, _) \<Rightarrow> (store, [Some err])
                | (Inr _, buf) \<Rightarrow>
               (case binary_Read 8 buf of
                  (Inl err, _) \<Rightarrow> (store, [Some err])
                | (Inr (timestamp :: int64), _) \<Rightarrow>
                    (storeConsumerOffset store
                       \<lparr>Topic = topic, Partition = partn, Offset = offset,
                        Timestamp = timestamp, Group = grp\<rparr>, []))))))))
             else if keyver = 2 then (store, [err])
             else (store, [err]))"

text \<open>
  \<open>getTopicsAndPartitions\<close>: three nested \<open>range\<close> loops, each step
  \<open>tpMap[topic] = append(tpMap[topic], partition)\<close>.
\<close>

definition getTopicsAndPartitions :: "GTPOffsetMap \<Rightarrow> (string \<times> int32 list) list" where
  "getTopicsAndPartitions offsetStore =
     fold (\<lambda>(grp, gbody).
       fold (\<lambda>(topic, tbody).
         fold (\<lambda>(partn, _) tpMap. AList.update topic (index_map tpMap topic @ [partn]) tpMap)
           tbody)
         gbody)
       offsetStore []"

section \<open>Broker Offset Poller: the request batches\<close>

text \<open>
  \<open>sarama.OffsetRequest\<close> is a library type: its blocks are keyed by topic and partition,
  so the request is the list of the keys added, each once. Every block added by the poller
  carries the same \<open>(sarama.OffsetNewest, 1)\<close>.
\<close>

type_synonym OffsetRequest = "(string \<times> int32) list"

definition AddBlock :: "OffsetRequest \<Rightarrow> string \<Rightarrow> int32 \<Rightarrow> OffsetRequest" where
  "AddBlock r topic partn = (if (topic, partn) \<in> set r then r else r @ [(topic, partn)])"

text \<open>
  The body of the inner loop of \<open>GetBrokerOffsets\<close>. \<open>Leader\<close> stands for
  \<open>qsm.Client.Leader\<close>, giving the leader's broker ID or \<open>None\<close> for an error; the map
  \<open>brokerOffsetRequests\<close> is keyed by that ID.
\<close>

definition addLeaderBlock ::
    "(string \<Rightarrow> int32 \<Rightarrow> int32 option) \<Rightarrow> string \<Rightarrow> int32 \<Rightarrow>
     (int32 \<times> OffsetRequest) list \<Rightarrow> (int32 \<times> OffsetRequest) list" where
  "addLeaderBlock Leader topic partn brokerOffsetRequests =
     (case Leader topic partn of
        None \<Rightarrow> brokerOffsetRequests
      | Some leaderBrokerID \<Rightarrow>
          (case map_of brokerOffsetRequests leaderBrokerID of
             None \<Rightarrow> AList.update leaderBrokerID [] brokerOffsetRequests
           | Some r \<Rightarrow> AList.update leaderBrokerID (AddBlock r topic partn) brokerOffsetRequests))"

text \<open>
  The first half of \<open>GetBrokerOffsets\<close>: the requests it has built when it starts to
  send them, one entry per leader.
\<close>

definition GetBrokerOffsets_requests ::
    "(string \<Rightarrow> int32 \<Rightarrow> int32 option) \<Rightarrow> GTPOffsetMap \<Rightarrow> (int32 \<times> OffsetRequest) list" where
  "GetBrokerOffsets_requests Leader ConsumerOffsetStore =
     fold (\<lambda>(topic, partitions). fold (addLeaderBlock Leader topic) partitions)
       (getTopicsAndPartitions ConsumerOffsetStore) []"

section \<open>Lag Reporter\<close>

text \<open>\<open>%d\<close> of \<open>fmt.Sprintf\<close>: decimal digits, a minus sign before a negative number.\<close>

fun digits :: "nat \<Rightarrow> string" where
  "digits n = (if n < 10 then [char_of (48 + n)] else digits (n div 10) @ [char_of (48 + n mod 10)])"

declare digits.simps [simp del]

definition fmt_d :: "int \<Rightarrow> string" where
  "fmt_d i = (if i < 0 then CHR ''-'' # digits (nat (- i)) else digits (nat i))"

text \<open>
  What \<open>computeLag\<close> does for one entry: the gauge handed to \<open>sendGaugeToStatsd\<close>
  (stat name and value), the "Negative Lag received" line (stat name and lag), and the
  lag report line (topic, partition, broker offset, consumer offset, lag, group).
\<close>

datatype event =
    Gauge string int64
  | NegativeLag string int64
  | LagReport string int32 int64 int64 int64 string

text \<open>
  The body of the innermost loop of \<open>computeLag\<close>, with \<open>prefix\<close> for
  \<open>qsm.StatsdCfg.prefix\<close>. The subtraction is Go's on \<open>int64\<close>: it wraps.
\<close>

definition computeLag_entry ::
    "string \<Rightarrow> TPOffsetMap \<Rightarrow> GTPOffsetMap \<Rightarrow> string \<Rightarrow> string \<Rightarrow> int32 \<Rightarrow> event list" where
  "computeLag_entry prefix brokerOffsetMap consumerOffsetMap grp topic partn =
     (let lag = index_offset (index_map brokerOffsetMap topic) partn
                - index_offset (index_map (index_map consumerOffsetMap grp) topic) partn;
          stat = prefix @ ''.group.'' @ grp @ ''.'' @ topic @ ''.'' @ fmt_d (sint partn)
      in if lag <s 0 then [NegativeLag stat lag]
         else [Gauge stat lag,
               LagReport topic partn
                 (index_offset (index_map brokerOffsetMap topic) partn)
                 (index_offset (index_map (index_map consumerOffsetMap grp) topic) partn)
                 lag grp])"

text \<open>
  \<open>computeLag\<close>: the three \<open>range\<close> loops; the result lists what the body does, in
  the order the loops visit the entries.
\<close>

definition computeLag :: "string \<Rightarrow> TPOffsetMap \<Rightarrow> GTPOffsetMap \<Rightarrow> event list" where
  "computeLag prefix brokerOffsetMap consumerOffsetMap =
     concat (map (\<lambda>(grp, gbody).
       concat (map (\<lambda>(topic, tbody).
         concat (map (\<lambda>(partn, _).
           computeLag_entry prefix brokerOffsetMap consumerOffsetMap grp topic partn)
           tbody))
         gbody))
       consumerOffsetMap)"

section \<open>The wire layout of a commit record\<close>

text \<open>
  The layout the spec gives for a commit key and a commit value, as an encoder, to state
  what the decoder recovers: big-endian fixed-width integers, and a string as a 2-byte
  big-endian length followed by its bytes.
\<close>

definition be_bytes :: "nat \<Rightarrow> 'a::len word \<Rightarrow> byte list" where
  "be_bytes n w = map (\<lambda>i. ucast (drop_bit (8 * i) w)) (rev [0..<n])"

definition encodeString :: "string \<Rightarrow> byte list" where
  "encodeString s = be_bytes 2 (of_nat (length s) :: uint16) @ map of_char s"

definition encodeKey :: "uint16 \<Rightarrow> string \<Rightarrow> string \<Rightarrow> int32 \<Rightarrow> byte list" where
  "encodeKey version grp topic partn =
     be_bytes 2 version @ encodeString grp @ encodeString topic @ be_bytes 4 partn"

definition encodeValue :: "uint16 \<Rightarrow> int64 \<Rightarrow> string \<Rightarrow> int64 \<Rightarrow> byte list" where
  "encodeValue version offset metadata commitTimestamp =
     be_bytes 2 version @ be_bytes 8 offset @ encodeString metadata @ be_bytes 8 commitTimestamp"

section \<open>Codec lemmas\<close>

subsection \<open>Big-endian integers and strings\<close>

lemma be_bytes_Suc: "be_bytes (Suc n) w = ucast (drop_bit (8 * n) w) # be_bytes n w"
  by (simp add: be_bytes_def)

lemma length_be_bytes [simp]: "length (be_bytes n w) = n"
  by (simp add: be_bytes_def)

lemma foldl_be_bytes:
  "foldl (\<lambda>acc b. push_bit 8 acc OR ucast b) acc (be_bytes n w) =
     push_bit (8 * n) acc OR take_bit (8 * n) (w :: 'a::len word)"
proof (induction n arbitrary: acc)
  case 0
  then show ?case by (simp add: be_bytes_def)
next
  case (Suc n)
  have step: "push_bit (8 * n) (push_bit 8 acc OR ucast (ucast (drop_bit (8 * n) w) :: byte)) OR take_bit (8 * n) w
       = push_bit (8 * Suc n) acc OR take_bit (8 * Suc n) w"
  proof (rule bit_word_eqI)
    fix m assume m: "m < LENGTH('a)"
    have "m - 8 * n - 8 = m - (8 + 8 * n)" by simp
    with m show "bit (push_bit (8 * n) (push_bit 8 acc OR ucast (ucast (drop_bit (8 * n) w) :: byte)) OR take_bit (8 * n) w) m
       = bit (push_bit (8 * Suc n) acc OR take_bit (8 * Suc n) w) m"
      by (auto simp add: bit_simps)
  qed
  have "foldl (\<lambda>acc b. push_bit 8 acc OR ucast b) acc (be_bytes (Suc n) w)
      = foldl (\<lambda>acc b. push_bit 8 acc OR ucast b) (push_bit 8 acc OR ucast (ucast (drop_bit (8 * n) w) :: byte)) (be_bytes n w)"
    by (simp only: be_bytes_Suc foldl_Cons)
  also have "\<dots> = push_bit (8 * n) (push_bit 8 acc OR ucast (ucast (drop_bit (8 * n) w) :: byte)) OR take_bit (8 * n) w"
    by (rule Suc)
  finally show ?case by (simp only: step)
qed

lemma BigEndian_be_bytes:
  "LENGTH('a::len) \<le> 8 * n \<Longrightarrow> BigEndian (be_bytes n w) = (w :: 'a word)"
  by (simp add: BigEndian_def foldl_be_bytes take_bit_word_eq_self)

lemma char_of_unat_of_char: "char_of (unat (of_char c :: byte)) = c"
proof -
  have "(of_char c :: byte) = of_nat (of_char c)" by (simp only: of_nat_of_char)
  then have "unat (of_char c :: byte) = of_char c mod 256" by (simp only: unat_of_nat) simp
  then show ?thesis by (simp only: char_of_mod_256 char_of_char)
qed

lemma string_of_bytes_of_char: "string_of_bytes (map of_char s) = s"
  by (induction s) (simp_all add: string_of_bytes_def char_of_unat_of_char)

subsection \<open>Reading from a buffer cut after \<open>n\<close> bytes\<close>

lemma ReadFull_take:
  "length xs = k \<Longrightarrow> ReadFull k (take n (xs @ ys)) =
     (if k \<le> n then (Inr xs, take (n - k) ys)
      else (Inl (if n = 0 \<or> k = 0 then EOF else ErrUnexpectedEOF), []))"
  by (auto simp add: ReadFull_def min_def)

lemma binary_Read_take:
  "LENGTH('a::len) \<le> 8 * k \<Longrightarrow> 0 < k \<Longrightarrow>
   binary_Read k (take n (be_bytes k (w :: 'a word) @ ys)) =
     (if k \<le> n then (Inr w, take (n - k) ys)
      else (Inl (if n = 0 then EOF else ErrUnexpectedEOF), []))"
  by (simp add: binary_Read_def ReadFull_take BigEndian_be_bytes del: take_append)

lemma binary_Read_whole:
  "LENGTH('a::len) \<le> 8 * k \<Longrightarrow> 0 < k \<Longrightarrow>
   binary_Read k (be_bytes k (w :: 'a word) @ ys) = (Inr w, ys)"
  using binary_Read_take [where k=k and w=w and n="k + length ys" and ys=ys] by simp

lemma unat_length16: "length s < 65536 \<Longrightarrow> unat (of_nat (length s) :: uint16) = length s"
  by (simp add: unat_of_nat)

lemma Buffer_Read_take:
  "length xs = k \<Longrightarrow> Buffer_Read k (take n (xs @ ys)) =
     (if k \<le> n then (k, None, xs, take (n - k) ys)
      else if n = 0 then (0, Some EOF, [], [])
      else (n, None, take n xs, []))"
  apply (auto simp add: Buffer_Read_def min_def)
  done

lemma readString_take:
  "length s < 65536 \<Longrightarrow>
   readString (take n (encodeString s @ ys)) =
     (if n < 2 then (Inl (if n = 0 then EOF else ErrUnexpectedEOF), [])
      else if n < 2 + length s then (Inl StringUnderflow, [])
      else (Inr s, take (n - (2 + length s)) ys))"
  by (auto simp add: readString_def encodeString_def binary_Read_take unat_length16
       Buffer_Read_take string_of_bytes_of_char simp del: take_append)

lemma readString_whole:
  "length s < 65536 \<Longrightarrow> readString (encodeString s @ ys) = (Inr s, ys)"
  using readString_take [where s=s and n="2 + length s + length ys" and ys=ys]
  by (simp add: encodeString_def)

lemma length_encodeString [simp]: "length (encodeString s) = 2 + length s"
  by (simp add: encodeString_def)

lemma length_encodeKey:
  "length (encodeKey v g t p) = 10 + length g + length t"
  by (simp add: encodeKey_def)

lemma length_encodeValue:
  "length (encodeValue v off m ts) = 20 + length m"
  by (simp add: encodeValue_def)

lemma readString_Nil: "readString [] = (Inl EOF, [])"
  by (simp add: readString_def binary_Read_def ReadFull_def)

lemma decodeKey_take:
  assumes "version = 0 \<or> version = 1" "length grp < 65536" "length topic < 65536"
  shows "decodeKey (take n (encodeKey version grp topic partn @ ys)) =
     (if n < 2 then Inl (Some EOF)
      else if n < 4 then Inl (Some (if n = 2 then EOF else ErrUnexpectedEOF))
      else if n < 4 + length grp then Inl (Some StringUnderflow)
      else if n < 6 + length grp then Inl (Some (if n = 4 + length grp then EOF else ErrUnexpectedEOF))
      else if n < 6 + length grp + length topic then Inl (Some StringUnderflow)
      else if n < 10 + length grp + length topic
        then Inl (Some (if n = 6 + length grp + length topic then EOF else ErrUnexpectedEOF))
      else Inr (grp, topic, partn))"
  using assms
  by (auto simp add: decodeKey_def encodeKey_def binary_Read_take readString_take readString_Nil
       simp del: take_append)

lemma decodeValue_take:
  assumes "version = 0 \<or> version = 1" "length metadata < 65536"
  shows "decodeValue (take n (encodeValue version offset metadata ts @ ys)) =
     (if n < 2 then Inl (Some (if n = 0 then EOF else ErrUnexpectedEOF))
      else if n < 10 then Inl (Some (if n = 2 then EOF else ErrUnexpectedEOF))
      else if n < 12 then Inl (Some (if n = 10 then EOF else ErrUnexpectedEOF))
      else if n < 12 + length metadata then Inl (Some StringUnderflow)
      else if n < 20 + length metadata
        then Inl (Some (if n = 12 + length metadata then EOF else ErrUnexpectedEOF))
      else Inr (offset, ts))"
  using assms
  by (auto simp add: decodeValue_def encodeValue_def binary_Read_take readString_take
       simp del: take_append)

subsection \<open>The decoder on whole buffers, short buffers and other versions\<close>

lemma binary_Read_short:
  "length buf < k \<Longrightarrow>
   binary_Read k buf = (Inl (if buf = [] then EOF else ErrUnexpectedEOF), [])"
  by (simp add: binary_Read_def ReadFull_def)

lemma decodeKey_short: "length key < 2 \<Longrightarrow> decodeKey key = Inl (Some EOF)"
  by (simp add: decodeKey_def binary_Read_short readString_Nil)

lemma decodeValue_short:
  "length val < 2 \<Longrightarrow> decodeValue val = Inl (Some (if val = [] then EOF else ErrUnexpectedEOF))"
  by (simp add: decodeValue_def binary_Read_short)

lemma decodeKey_version:
  "version \<noteq> 0 \<Longrightarrow> version \<noteq> 1 \<Longrightarrow>
   decodeKey (be_bytes 2 (version :: uint16) @ rest) = Inl None"
  by (simp add: decodeKey_def binary_Read_whole)

lemma decodeValue_version:
  "version \<noteq> 0 \<Longrightarrow> version \<noteq> 1 \<Longrightarrow>
   decodeValue (be_bytes 2 (version :: uint16) @ rest) = Inl None"
  by (simp add: decodeValue_def binary_Read_whole)

lemma decodeKey_whole:
  assumes "version = 0 \<or> version = 1" "length grp < 65536" "length topic < 65536"
  shows "decodeKey (encodeKey version grp topic partn @ ys) = Inr (grp, topic, partn)"
  using decodeKey_take [OF assms, where n = "length (encodeKey version grp topic partn @ ys)"
      and partn = partn and ys = ys]
  by (simp add: length_encodeKey)

lemma decodeValue_whole:
  assumes "version = 0 \<or> version = 1" "length metadata < 65536"
  shows "decodeValue (encodeValue version offset metadata ts @ ys) = Inr (offset, ts)"
  using decodeValue_take [OF assms, where n = "length (encodeValue version offset metadata ts @ ys)"
      and offset = offset and ts = ts and ys = ys]
  by (simp add: length_encodeValue)

lemma formatConsumerOffsetMessage_decode:
  "formatConsumerOffsetMessage store message =
     (case decodeKey (Key message) of
        Inl err \<Rightarrow> (store, [err])
      | Inr (grp, topic, partn) \<Rightarrow>
          (case decodeValue (Value message) of
             Inl err \<Rightarrow> (store, [err])
           | Inr (offset, timestamp) \<Rightarrow>
               (storeConsumerOffset store
                  \<lparr>Topic = topic, Partition = partn, Offset = offset,
                   Timestamp = timestamp, Group = grp\<rparr>, [])))"
proof -
  have V: "\<And>grp topic partn.
    (case binary_Read 2 (Value message) of
       (r, buf) \<Rightarrow>
         let err = (case r of Inl e \<Rightarrow> Some e | Inr _ \<Rightarrow> None);
             valver = (case r of Inl _ \<Rightarrow> 0 | Inr v \<Rightarrow> (v :: uint16))
         in if err \<noteq> None \<or> (valver \<noteq> 0 \<and> valver \<noteq> 1) then (store, [err])
            else
              (case binary_Read 8 buf of
                 (Inl err, _) \<Rightarrow> (store, [Some err])
               | (Inr (offset :: int64), buf) \<Rightarrow>
              (case readString buf of
                 (Inl err, _) \<Rightarrow> (store, [Some err])
               | (Inr _, buf) \<Rightarrow>
              (case binary_Read 8 buf of
                 (Inl err, _) \<Rightarrow> (store, [Some err])
               | (Inr (timestamp :: int64), _) \<Rightarrow>
                   (storeConsumerOffset store
                      \<lparr>Topic = topic, Partition = partn, Offset = offset,
                       Timestamp = timestamp, Group = grp\<rparr>, [])))))
    = (case decodeValue (Value message) of
             Inl err \<Rightarrow> (store, [err])
           | Inr (offset, timestamp) \<Rightarrow>
               (storeConsumerOffset store
                  \<lparr>Topic = topic, Partition = partn, Offset = offset,
                   Timestamp = timestamp, Group = grp\<rparr>, []))"
    by (simp add: decodeValue_def Let_def split: prod.split sum.split)
  show ?thesis
    unfolding formatConsumerOffsetMessage_def V
    by (simp add: decodeKey_def Let_def split: prod.split sum.split)
qed

subsection \<open>Examples of the layout\<close>

lemma encodeKey_example: "encodeKey 1 ''g'' ''t1'' 7 = [0,1, 0,1,103, 0,2,116,49, 0,0,0,7]"
  by (simp add: encodeKey_def encodeString_def be_bytes_def upt_rec)

lemma encodeValue_example: "encodeValue 1 50 [] 9 = [0,1, 0,0,0,0,0,0,0,50, 0,0, 0,0,0,0,0,0,0,9]"
  by (simp add: encodeValue_def encodeString_def be_bytes_def upt_rec)

lemma be_bytes_example: "be_bytes 2 (2 :: uint16) = [0, 2]"
  by (simp add: be_bytes_def upt_rec)

lemma storeConsumerOffset_empty_example:
  "storeConsumerOffset [] \<lparr>Topic = ''t1'', Partition = 7, Offset = 50, Timestamp = 9, Group = ''g''\<rparr>
     = [(''g'', [(''t1'', [(7, 50)])])]"
  by (simp add: storeConsumerOffset_def index_map_def)

lemma encodeValue_example0:
  "encodeValue 0 50 [] 9 = [0,0, 0,0,0,0,0,0,0,50, 0,0, 0,0,0,0,0,0,0,9]"
  by (simp add: encodeValue_def encodeString_def be_bytes_def upt_rec)

lemma storeConsumerOffset_overwrite_example:
  "storeConsumerOffset [(''g'', [(''t1'', [(7, 50)])])]
     \<lparr>Topic = ''t1'', Partition = 7, Offset = 51, Timestamp = 9, Group = ''g''\<rparr>
     = [(''g'', [(''t1'', [(7, 51)])])]"
  by (simp add: storeConsumerOffset_def index_map_def)

lemma encodeValue_example51:
  "encodeValue 1 51 [] 9 = [0,1, 0,0,0,0,0,0,0,51, 0,0, 0,0,0,0,0,0,0,9]"
  by (simp add: encodeValue_def encodeString_def be_bytes_def upt_rec)

section \<open>Codec properties\<close>

text \<open>
  C2. A commit key of version 0 or 1, laid out as big-endian \<open>int16\<close> version, group and
  topic each behind a 2-byte length, and \<open>int32\<close> partition, decodes to exactly that
  group, topic and partition, and these are what the parser stores once the value has
  decoded too. A key whose version field is 2 or anything else but 0 and 1 is rejected:
  the parser logs (a nil error) and returns, and the Consumer Offset Table is as before.
  The lengths must fit the 2-byte prefix.
\<close>

theorem commit_key_roundtrip:
  "((version = 0 \<or> version = 1) \<and> length grp < 65536 \<and> length topic < 65536 \<longrightarrow>
      decodeKey (encodeKey version grp topic partn) = Inr (grp, topic, partn) \<and>
      (decodeValue val = Inr (offset, ts) \<longrightarrow>
         formatConsumerOffsetMessage store \<lparr>Key = encodeKey version grp topic partn, Value = val\<rparr>
           = (storeConsumerOffset store
                \<lparr>Topic = topic, Partition = partn, Offset = offset, Timestamp = ts, Group = grp\<rparr>,
              [])))
   \<and> (other \<noteq> 0 \<and> other \<noteq> 1 \<longrightarrow>
      decodeKey (be_bytes 2 (other :: uint16) @ rest) = Inl None \<and>
      formatConsumerOffsetMessage store \<lparr>Key = be_bytes 2 other @ rest, Value = val\<rparr>
        = (store, [None]))"
proof (intro conjI impI)
  assume a: "(version = 0 \<or> version = 1) \<and> length grp < 65536 \<and> length topic < 65536"
  then show k: "decodeKey (encodeKey version grp topic partn) = Inr (grp, topic, partn)"
    using decodeKey_whole [where ys = "[]"] by simp
  assume "decodeValue val = Inr (offset, ts)"
  with k show "formatConsumerOffsetMessage store \<lparr>Key = encodeKey version grp topic partn, Value = val\<rparr>
           = (storeConsumerOffset store
                \<lparr>Topic = topic, Partition = partn, Offset = offset, Timestamp = ts, Group = grp\<rparr>,
              [])"
    by (simp add: formatConsumerOffsetMessage_decode)
next
  assume b: "other \<noteq> 0 \<and> other \<noteq> 1"
  then show r: "decodeKey (be_bytes 2 other @ rest) = Inl None"
    by (simp add: decodeKey_version)
  then show "formatConsumerOffsetMessage store \<lparr>Key = be_bytes 2 other @ rest, Value = val\<rparr>
        = (store, [None])"
    by (simp add: formatConsumerOffsetMessage_decode)
qed

theorem commit_key_roundtrip_witness:
  "decodeKey [0,1, 0,1,103, 0,2,116,49, 0,0,0,7] = Inr (''g'', ''t1'', 7) \<and>
   formatConsumerOffsetMessage []
      \<lparr>Key = [0,1, 0,1,103, 0,2,116,49, 0,0,0,7],
       Value = [0,1, 0,0,0,0,0,0,0,50, 0,0, 0,0,0,0,0,0,0,9]\<rparr>
     = ([(''g'', [(''t1'', [(7, 50)])])], []) \<and>
   decodeKey ([0,2] @ [0,1,103]) = Inl None \<and>
   formatConsumerOffsetMessage []
      \<lparr>Key = [0,2] @ [0,1,103], Value = [0,1, 0,0,0,0,0,0,0,50, 0,0, 0,0,0,0,0,0,0,9]\<rparr>
     = ([], [None])"
proof -
  have v: "decodeValue (encodeValue 1 50 [] 9) = Inr (50, 9)"
    using decodeValue_whole [where version = 1 and metadata = "[]" and ys = "[]"] by simp
  show ?thesis
    using v commit_key_roundtrip [where version = 1 and grp = "''g''" and topic = "''t1''"
        and partn = 7 and val = "encodeValue 1 50 [] 9" and offset = 50 and ts = 9
        and store = "[]" and other = 2 and rest = "[0,1,103]"]
    by (simp add: encodeKey_example encodeValue_example be_bytes_example storeConsumerOffset_empty_example)
qed

text \<open>
  C3. A commit key or commit value of version 0 or 1 cut at any byte before its full length
  decodes to an error, and the parser logs it and leaves the table alone; so does any key
  or value too short to hold its version field. Every read hands out bytes of the buffer
  only: \<open>ReadFull\<close> gives the next \<open>k\<close> bytes or fails, \<open>Buffer_Read\<close> gives at most
  \<open>k\<close> and no more than are left.
\<close>

theorem truncated_record_rejected:
  "((version = 0 \<or> version = 1) \<and> length grp < 65536 \<and> length topic < 65536 \<and>
     n < length (encodeKey version grp topic partn) \<longrightarrow>
      (\<exists>e. decodeKey (take n (encodeKey version grp topic partn)) = Inl (Some e) \<and>
           formatConsumerOffsetMessage store
             \<lparr>Key = take n (encodeKey version grp topic partn), Value = val\<rparr> = (store, [Some e])))
   \<and> ((vversion = 0 \<or> vversion = 1) \<and> length metadata < 65536 \<and>
     m < length (encodeValue vversion offset metadata ts) \<longrightarrow>
      (\<exists>e. decodeValue (take m (encodeValue vversion offset metadata ts)) = Inl (Some e) \<and>
           fst (formatConsumerOffsetMessage store
             \<lparr>Key = key, Value = take m (encodeValue vversion offset metadata ts)\<rparr>) = store))
   \<and> (length skey < 2 \<longrightarrow> decodeKey skey = Inl (Some EOF))
   \<and> (length sval < 2 \<longrightarrow>
        decodeValue sval = Inl (Some (if sval = [] then EOF else ErrUnexpectedEOF)))
   \<and> (ReadFull k buf = (Inr bs, buf') \<longrightarrow> buf = bs @ buf' \<and> length bs = k)
   \<and> (Buffer_Read k buf = (c, err, bs, buf') \<longrightarrow> buf = bs @ buf' \<and> length bs = c \<and> c \<le> k)"
proof (intro conjI impI)
  assume a: "(version = 0 \<or> version = 1) \<and> length grp < 65536 \<and> length topic < 65536 \<and>
     n < length (encodeKey version grp topic partn)"
  then have "\<exists>e. decodeKey (take n (encodeKey version grp topic partn @ [])) = Inl (Some e)"
    by (simp only: decodeKey_take length_encodeKey) simp
  then obtain e where e: "decodeKey (take n (encodeKey version grp topic partn)) = Inl (Some e)"
    by auto
  then have "formatConsumerOffsetMessage store
             \<lparr>Key = take n (encodeKey version grp topic partn), Value = val\<rparr> = (store, [Some e])"
    by (simp add: formatConsumerOffsetMessage_decode)
  with e show "\<exists>e. decodeKey (take n (encodeKey version grp topic partn)) = Inl (Some e) \<and>
           formatConsumerOffsetMessage store
             \<lparr>Key = take n (encodeKey version grp topic partn), Value = val\<rparr> = (store, [Some e])"
    by blast
next
  assume a: "(vversion = 0 \<or> vversion = 1) \<and> length metadata < 65536 \<and>
     m < length (encodeValue vversion offset metadata ts)"
  then have "\<exists>e. decodeValue (take m (encodeValue vversion offset metadata ts @ [])) = Inl (Some e)"
    by (simp only: decodeValue_take length_encodeValue) simp
  then obtain e where e: "decodeValue (take m (encodeValue vversion offset metadata ts)) = Inl (Some e)"
    by auto
  then have "fst (formatConsumerOffsetMessage store
             \<lparr>Key = key, Value = take m (encodeValue vversion offset metadata ts)\<rparr>) = store"
    by (simp add: formatConsumerOffsetMessage_decode split: sum.split prod.split)
  with e show "\<exists>e. decodeValue (take m (encodeValue vversion offset metadata ts)) = Inl (Some e) \<and>
           fst (formatConsumerOffsetMessage store
             \<lparr>Key = key, Value = take m (encodeValue vversion offset metadata ts)\<rparr>) = store"
    by blast
next
  assume "length skey < 2"
  then show "decodeKey skey = Inl (Some EOF)" by (rule decodeKey_short)
next
  assume "length sval < 2"
  then show "decodeValue sval = Inl (Some (if sval = [] then EOF else ErrUnexpectedEOF))"
    by (rule decodeValue_short)
next
  assume "ReadFull k buf = (Inr bs, buf')"
  then show "buf = bs @ buf'" and "length bs = k"
    by (auto simp add: ReadFull_def split: if_splits)
next
  assume "Buffer_Read k buf = (c, err, bs, buf')"
  then show "buf = bs @ buf'" and "length bs = c" and "c \<le> k"
    by (auto simp add: Buffer_Read_def split: if_splits)
qed

theorem truncated_record_rejected_witness:
  "(\<exists>e. decodeKey (take 4 [0,1, 0,1,103, 0,2,116,49, 0,0,0,7]) = Inl (Some e) \<and>
        formatConsumerOffsetMessage [] \<lparr>Key = take 4 [0,1, 0,1,103, 0,2,116,49, 0,0,0,7],
            Value = [0,1, 0,0,0,0,0,0,0,50, 0,0, 0,0,0,0,0,0,0,9]\<rparr> = ([], [Some e]))
   \<and> (\<exists>e. decodeValue (take 12 [0,1, 0,0,0,0,0,0,0,50, 0,0, 0,0,0,0,0,0,0,9]) = Inl (Some e) \<and>
        fst (formatConsumerOffsetMessage [] \<lparr>Key = [0,1, 0,1,103, 0,2,116,49, 0,0,0,7],
            Value = take 12 [0,1, 0,0,0,0,0,0,0,50, 0,0, 0,0,0,0,0,0,0,9]\<rparr>) = [])
   \<and> decodeKey [0] = Inl (Some EOF)
   \<and> decodeValue [0] = Inl (Some ErrUnexpectedEOF)
   \<and> ([1, 2, 3] = [1, 2] @ [3 :: byte] \<and> length [1, 2 :: byte] = 2)
   \<and> ([1, 2, 3] = [1, 2, 3] @ ([] :: byte list) \<and> length [1, 2, 3 :: byte] = 3 \<and> (3 :: nat) \<le> 5)"
  using truncated_record_rejected [where version = 1 and grp = "''g''" and topic = "''t1''"
      and partn = 7 and n = 4 and store = "[]"
      and val = "[0,1, 0,0,0,0,0,0,0,50, 0,0, 0,0,0,0,0,0,0,9]"
      and vversion = 1 and metadata = "[]" and offset = 50 and ts = 9 and m = 12
      and key = "[0,1, 0,1,103, 0,2,116,49, 0,0,0,7]"
      and skey = "[0]" and sval = "[0]"
      and k = 2 and buf = "[1, 2, 3]" and bs = "[1, 2]" and buf' = "[3]"]
    truncated_record_rejected [where k = 5 and buf = "[1, 2, 3]" and c = 3 and err = None
      and bs = "[1, 2, 3]" and buf' = "[]"]
  by (simp add: encodeKey_example encodeValue_example ReadFull_def Buffer_Read_def)

text \<open>
  C8. The value decoder accepts versions 0 and 1 only and reads the same three fields for
  both: \<open>int64\<close> offset, a length-prefixed metadata string, which it drops, and
  \<open>int64\<close> commit timestamp. Whatever follows the timestamp is not read, for version 1
  as for version 0. A value with any other version is logged (with a nil error) and
  dropped, the table unchanged.
\<close>

theorem commit_value_fields:
  "((version = 0 \<or> version = 1) \<and> length metadata < 65536 \<longrightarrow>
      decodeValue (encodeValue version offset metadata ts @ trailing) = Inr (offset, ts))
   \<and> (other \<noteq> 0 \<and> other \<noteq> 1 \<longrightarrow>
      decodeValue (be_bytes 2 (other :: uint16) @ rest) = Inl None \<and>
      fst (formatConsumerOffsetMessage store \<lparr>Key = key, Value = be_bytes 2 other @ rest\<rparr>)
        = store)"
proof (intro conjI impI)
  assume "(version = 0 \<or> version = 1) \<and> length metadata < 65536"
  then show "decodeValue (encodeValue version offset metadata ts @ trailing) = Inr (offset, ts)"
    by (simp add: decodeValue_whole)
next
  assume "other \<noteq> 0 \<and> other \<noteq> 1"
  then show r: "decodeValue (be_bytes 2 other @ rest) = Inl None"
    by (simp add: decodeValue_version)
  then show "fst (formatConsumerOffsetMessage store \<lparr>Key = key, Value = be_bytes 2 other @ rest\<rparr>)
        = store"
    by (simp add: formatConsumerOffsetMessage_decode split: sum.split prod.split)
qed

theorem commit_value_fields_witness:
  "decodeValue ([0,0, 0,0,0,0,0,0,0,50, 0,0, 0,0,0,0,0,0,0,9] @ [0,0,0,0,0,0,0,77]) = Inr (50, 9)
   \<and> decodeValue ([0,1, 0,0,0,0,0,0,0,50, 0,0, 0,0,0,0,0,0,0,9] @ [0,0,0,0,0,0,0,77]) = Inr (50, 9)
   \<and> decodeValue ([0, 2] @ [0,0,0,0,0,0,0,50]) = Inl None
   \<and> fst (formatConsumerOffsetMessage [] \<lparr>Key = [0,1, 0,1,103, 0,2,116,49, 0,0,0,7],
         Value = [0, 2] @ [0,0,0,0,0,0,0,50]\<rparr>) = []"
  using commit_value_fields [where version = 0 and metadata = "[]" and offset = 50 and ts = 9
      and trailing = "[0,0,0,0,0,0,0,77]" and other = 2 and rest = "[0,0,0,0,0,0,0,50]"
      and store = "[]" and key = "[0,1, 0,1,103, 0,2,116,49, 0,0,0,7]"]
    commit_value_fields [where version = 1 and metadata = "[]" and offset = 50 and ts = 9
      and trailing = "[0,0,0,0,0,0,0,77]" and other = 2 and rest = "[0,0,0,0,0,0,0,50]"
      and store = "[]" and key = "[0,1, 0,1,103, 0,2,116,49, 0,0,0,7]"]
  by (simp add: encodeValue_example encodeValue_example0 be_bytes_example)

text \<open>
  C10. A record whose key or whose value does not decode leaves the Consumer Offset Table
  exactly as it was and logs one line; the table changes only when both have decoded in
  full, and then by the one \<open>storeConsumerOffset\<close> of the decoded fields.
\<close>

theorem failed_decode_leaves_table:
  "(decodeKey (Key messageK) = Inl errK \<longrightarrow>
      formatConsumerOffsetMessage store messageK = (store, [errK]))
   \<and> (decodeValue (Value messageV) = Inl errV \<longrightarrow>
      fst (formatConsumerOffsetMessage store messageV) = store \<and>
      length (snd (formatConsumerOffsetMessage store messageV)) = 1)
   \<and> (fst (formatConsumerOffsetMessage store messageS) \<noteq> store \<longrightarrow>
      (\<exists>grp topic partn offset ts.
         decodeKey (Key messageS) = Inr (grp, topic, partn) \<and>
         decodeValue (Value messageS) = Inr (offset, ts) \<and>
         formatConsumerOffsetMessage store messageS =
           (storeConsumerOffset store
              \<lparr>Topic = topic, Partition = partn, Offset = offset, Timestamp = ts, Group = grp\<rparr>,
            [])))"
proof (intro conjI impI)
  assume "decodeKey (Key messageK) = Inl errK"
  then show "formatConsumerOffsetMessage store messageK = (store, [errK])"
    by (simp add: formatConsumerOffsetMessage_decode)
next
  assume v: "decodeValue (Value messageV) = Inl errV"
  then show "fst (formatConsumerOffsetMessage store messageV) = store"
    by (simp add: formatConsumerOffsetMessage_decode split: sum.split prod.split)
  from v show "length (snd (formatConsumerOffsetMessage store messageV)) = 1"
    by (simp add: formatConsumerOffsetMessage_decode split: sum.split prod.split)
next
  assume c: "fst (formatConsumerOffsetMessage store messageS) \<noteq> store"
  show "\<exists>grp topic partn offset ts.
         decodeKey (Key messageS) = Inr (grp, topic, partn) \<and>
         decodeValue (Value messageS) = Inr (offset, ts) \<and>
         formatConsumerOffsetMessage store messageS =
           (storeConsumerOffset store
              \<lparr>Topic = topic, Partition = partn, Offset = offset, Timestamp = ts, Group = grp\<rparr>,
            [])"
  proof (cases "decodeKey (Key messageS)")
    case (Inl e)
    with c show ?thesis by (simp add: formatConsumerOffsetMessage_decode)
  next
    case (Inr k)
    obtain grp topic partn where k: "k = (grp, topic, partn)" by (cases k)
    show ?thesis
    proof (cases "decodeValue (Value messageS)")
      case (Inl e)
      with c Inr k show ?thesis by (simp add: formatConsumerOffsetMessage_decode)
    next
      case v: (Inr r)
      obtain offset ts where r: "r = (offset, ts)" by (cases r)
      from Inr k v r show ?thesis by (simp add: formatConsumerOffsetMessage_decode)
    qed
  qed
qed

theorem failed_decode_leaves_table_witness:
  "formatConsumerOffsetMessage [(''g'', [(''t1'', [(7, 50)])])]
      \<lparr>Key = [0, 2, 0, 1, 103], Value = [0,1, 0,0,0,0,0,0,0,51, 0,0, 0,0,0,0,0,0,0,9]\<rparr>
     = ([(''g'', [(''t1'', [(7, 50)])])], [None])
   \<and> fst (formatConsumerOffsetMessage [(''g'', [(''t1'', [(7, 50)])])]
      \<lparr>Key = [0,1, 0,1,103, 0,2,116,49, 0,0,0,7], Value = [0,1, 0,0,0,0,0,0,0,51, 0,9]\<rparr>)
     = [(''g'', [(''t1'', [(7, 50)])])]
   \<and> (\<exists>grp topic partn offset ts.
         decodeKey [0,1, 0,1,103, 0,2,116,49, 0,0,0,7] = Inr (grp, topic, partn) \<and>
         decodeValue [0,1, 0,0,0,0,0,0,0,51, 0,0, 0,0,0,0,0,0,0,9] = Inr (offset, ts))"
proof -
  have k: "decodeKey [0,1, 0,1,103, 0,2,116,49, 0,0,0,7] = Inr (''g'', ''t1'', 7)"
    using decodeKey_whole [where version = 1 and grp = "''g''" and topic = "''t1''"
        and partn = 7 and ys = "[]"]
    by (simp add: encodeKey_example)
  have v: "decodeValue [0,1, 0,0,0,0,0,0,0,51, 0,0, 0,0,0,0,0,0,0,9] = Inr (51, 9)"
    using decodeValue_whole [where version = 1 and metadata = "[]" and offset = 51 and ts = 9
        and ys = "[]"]
    by (simp add: encodeValue_example51)
  have k2: "decodeKey [0, 2, 0, 1, 103] = Inl None"
    using decodeKey_version [where version = 2 and rest = "[0, 1, 103]"]
    by (simp add: be_bytes_example)
  have v2: "decodeValue [0,1, 0,0,0,0,0,0,0,51, 0,9] = Inl (Some StringUnderflow)"
    using decodeValue_take [where version = 1 and metadata = "replicate 9 (CHR ''a'')"
        and offset = 51 and ts = 9 and n = 12 and ys = "[]"]
    by (simp add: encodeValue_def encodeString_def be_bytes_def upt_rec)
  have c: "fst (formatConsumerOffsetMessage [(''g'', [(''t1'', [(7, 50)])])]
      \<lparr>Key = [0,1, 0,1,103, 0,2,116,49, 0,0,0,7],
       Value = [0,1, 0,0,0,0,0,0,0,51, 0,0, 0,0,0,0,0,0,0,9]\<rparr>)
        \<noteq> [(''g'', [(''t1'', [(7, 50)])])]"
    using k v by (simp add: formatConsumerOffsetMessage_decode storeConsumerOffset_overwrite_example)
  have t: "(decodeKey [0, 2, 0, 1, 103] = Inl None \<longrightarrow>
      formatConsumerOffsetMessage [(''g'', [(''t1'', [(7, 50)])])]
        \<lparr>Key = [0, 2, 0, 1, 103], Value = [0,1, 0,0,0,0,0,0,0,51, 0,0, 0,0,0,0,0,0,0,9]\<rparr>
       = ([(''g'', [(''t1'', [(7, 50)])])], [None]))
   \<and> (decodeValue [0,1, 0,0,0,0,0,0,0,51, 0,9] = Inl (Some StringUnderflow) \<longrightarrow>
      fst (formatConsumerOffsetMessage [(''g'', [(''t1'', [(7, 50)])])]
        \<lparr>Key = [0,1, 0,1,103, 0,2,116,49, 0,0,0,7], Value = [0,1, 0,0,0,0,0,0,0,51, 0,9]\<rparr>)
       = [(''g'', [(''t1'', [(7, 50)])])])
   \<and> (fst (formatConsumerOffsetMessage [(''g'', [(''t1'', [(7, 50)])])]
      \<lparr>Key = [0,1, 0,1,103, 0,2,116,49, 0,0,0,7],
       Value = [0,1, 0,0,0,0,0,0,0,51, 0,0, 0,0,0,0,0,0,0,9]\<rparr>)
        \<noteq> [(''g'', [(''t1'', [(7, 50)])])] \<longrightarrow>
       (\<exists>grp topic partn offset ts.
         decodeKey [0,1, 0,1,103, 0,2,116,49, 0,0,0,7] = Inr (grp, topic, partn) \<and>
         decodeValue [0,1, 0,0,0,0,0,0,0,51, 0,0, 0,0,0,0,0,0,0,9] = Inr (offset, ts)))"
    using failed_decode_leaves_table [where store = "[(''g'', [(''t1'', [(7, 50)])])]"
        and messageK = "\<lparr>Key = [0, 2, 0, 1, 103],
             Value = [0,1, 0,0,0,0,0,0,0,51, 0,0, 0,0,0,0,0,0,0,9]\<rparr>" and errK = None
        and messageV = "\<lparr>Key = [0,1, 0,1,103, 0,2,116,49, 0,0,0,7],
             Value = [0,1, 0,0,0,0,0,0,0,51, 0,9]\<rparr>" and errV = "Some StringUnderflow"
        and messageS = "\<lparr>Key = [0,1, 0,1,103, 0,2,116,49, 0,0,0,7],
             Value = [0,1, 0,0,0,0,0,0,0,51, 0,0, 0,0,0,0,0,0,0,9]\<rparr>"]
    by (simp only: ConsumerMessage.simps) blast
  from t k2 v2 c show ?thesis by blast
qed

section \<open>Consumer Offset Table: lemmas\<close>

subsection \<open>Upsert\<close>

lemma index_map_update:
  "index_map (AList.update k v m) k' = (if k' = k then v else index_map m k')"
  by (simp add: index_map_def update_conv')

lemma storeConsumerOffset_eq:
  "storeConsumerOffset store po =
     AList.update (Group po)
       (AList.update (Topic po)
          (AList.update (Partition po) (Offset po) (index_map (index_map store (Group po)) (Topic po)))
          (index_map store (Group po)))
       store"
proof -
  have a: "map_of m k = None \<Longrightarrow> AList.update k v (AList.update k [] m) = AList.update k v m"
    for m :: "('k \<times> 'v list) list" and k v
    by simp
  show ?thesis
    by (simp add: storeConsumerOffset_def Let_def index_map_update)
       (auto simp add: index_map_def update_conv' split: option.splits)
qed

lemma lookup_storeConsumerOffset:
  "lookupConsumerOffset (storeConsumerOffset store po) grp topic partn =
     (if grp = Group po \<and> topic = Topic po \<and> partn = Partition po then Some (Offset po)
      else lookupConsumerOffset store grp topic partn)"
  by (simp add: storeConsumerOffset_eq lookupConsumerOffset_def index_map_update update_conv')

lemma set_update_subset: "set (AList.update k v al) \<subseteq> insert (k, v) (set al)"
  by (induction al) auto

lemma map_of_index_map:
  "(k, v) \<in> set m \<Longrightarrow> distinct (map fst m) \<Longrightarrow> index_map m k = v"
  by (simp add: index_map_def)

lemma index_map_in_set:
  "index_map m k = [] \<or> (k, index_map m k) \<in> set m"
  by (auto simp add: index_map_def dest: map_of_SomeD split: option.splits)

lemma unique_keys_store:
  assumes "unique_keys store"
  shows "unique_keys (storeConsumerOffset store po)"
proof -
  let ?g = "Group po" and ?t = "Topic po" and ?p = "Partition po"
  let ?gb = "index_map store ?g"
  let ?tb = "index_map ?gb ?t"
  from assms have d: "distinct (map fst store)"
    and all1: "\<And>g gb. (g, gb) \<in> set store \<Longrightarrow> distinct (map fst gb)"
    and all2: "\<And>g gb t tb. (g, gb) \<in> set store \<Longrightarrow> (t, tb) \<in> set gb \<Longrightarrow> distinct (map fst tb)"
    by (auto simp add: unique_keys_def list_all_iff)
  have gb: "distinct (map fst ?gb)" "\<And>t tb. (t, tb) \<in> set ?gb \<Longrightarrow> distinct (map fst tb)"
    using index_map_in_set [of store ?g] all1 all2 by fastforce+
  have tb: "distinct (map fst ?tb)"
    using index_map_in_set [of ?gb ?t] gb(2) by auto
  let ?tb' = "AList.update ?p (Offset po) ?tb"
  let ?gb' = "AList.update ?t ?tb' ?gb"
  have tb': "distinct (map fst ?tb')" using tb by (rule distinct_update)
  have gb': "distinct (map fst ?gb')" using gb(1) by (rule distinct_update)
  have gb'': "\<And>t tb. (t, tb) \<in> set ?gb' \<Longrightarrow> distinct (map fst tb)"
    using set_update_subset [of ?t ?tb' ?gb] gb(2) tb' by auto
  have "distinct (map fst (AList.update ?g ?gb' store))" using d by (rule distinct_update)
  moreover have "\<And>g b. (g, b) \<in> set (AList.update ?g ?gb' store) \<Longrightarrow>
      distinct (map fst b) \<and> (\<forall>(t, tb) \<in> set b. distinct (map fst tb))"
  proof -
    fix g b assume "(g, b) \<in> set (AList.update ?g ?gb' store)"
    then have "b = ?gb' \<or> (g, b) \<in> set store"
      using set_update_subset [of ?g ?gb' store] by auto
    then show "distinct (map fst b) \<and> (\<forall>(t, tb) \<in> set b. distinct (map fst tb))"
      using all1 all2 gb' gb'' by fastforce
  qed
  ultimately show ?thesis
    unfolding unique_keys_def list_all_iff storeConsumerOffset_eq by fast
qed

lemma unique_keys_fold:
  "unique_keys store \<Longrightarrow> unique_keys (fold (\<lambda>po s. storeConsumerOffset s po) commits store)"
  by (induction commits arbitrary: store) (simp_all add: unique_keys_store)

lemma lookup_fold:
  "lookupConsumerOffset (fold (\<lambda>po s. storeConsumerOffset s po) commits store) grp topic partn =
     (case map_of (rev (map (\<lambda>po. ((Group po, Topic po, Partition po), Offset po)) commits))
             (grp, topic, partn) of
        Some v \<Rightarrow> Some v
      | None \<Rightarrow> lookupConsumerOffset store grp topic partn)"
proof (induction commits arbitrary: store)
  case Nil
  then show ?case by simp
next
  case (Cons po commits)
  show ?case
    by (simp add: Cons lookup_storeConsumerOffset map_add_def split: option.split)
qed

lemma lookupConsumerOffset_Nil: "lookupConsumerOffset [] g t p = None"
  by (simp add: lookupConsumerOffset_def index_map_def)

lemma unique_keys_Nil: "unique_keys []"
  by (simp add: unique_keys_def)

subsection \<open>The snapshot\<close>

lemma index_map_fold_partitions:
  "index_map (fold (\<lambda>(partn, _) tpMap. AList.update topic (index_map tpMap topic @ [partn]) tpMap)
                tbody tpMap) t =
     (if t = topic then index_map tpMap t @ map fst tbody else index_map tpMap t)"
  by (induction tbody arbitrary: tpMap) (auto simp add: index_map_update)

lemma index_map_fold_topics:
  "index_map (fold (\<lambda>(topic, tbody).
       fold (\<lambda>(partn, _) tpMap. AList.update topic (index_map tpMap topic @ [partn]) tpMap) tbody)
     gbody tpMap) t =
     index_map tpMap t @ concat (map (\<lambda>(topic, tbody). if topic = t then map fst tbody else []) gbody)"
  by (induction gbody arbitrary: tpMap) (auto simp add: index_map_fold_partitions)

lemma index_map_fold_groups:
  "index_map (fold (\<lambda>(grp, gbody).
       fold (\<lambda>(topic, tbody).
         fold (\<lambda>(partn, _) tpMap. AList.update topic (index_map tpMap topic @ [partn]) tpMap)
           tbody)
         gbody)
     store tpMap) t =
     index_map tpMap t @
       concat (map (\<lambda>(grp, gbody).
         concat (map (\<lambda>(topic, tbody). if topic = t then map fst tbody else []) gbody)) store)"
  by (induction store arbitrary: tpMap) (auto simp add: index_map_fold_topics)

lemma index_map_getTopicsAndPartitions:
  "index_map (getTopicsAndPartitions store) t =
     concat (map (\<lambda>(grp, gbody).
       concat (map (\<lambda>(topic, tbody). if topic = t then map fst tbody else []) gbody)) store)"
  by (simp add: getTopicsAndPartitions_def index_map_fold_groups) (simp add: index_map_def)

lemma topic_partitions_absent:
  "t \<notin> fst ` set gbody \<Longrightarrow>
   concat (map (\<lambda>(topic, tbody). if topic = t then map fst tbody else []) gbody) = []"
  by (induction gbody) auto

lemma topic_partitions_index:
  "distinct (map fst gbody) \<Longrightarrow>
   concat (map (\<lambda>(topic, tbody). if topic = t then map fst tbody else []) gbody)
     = map fst (index_map gbody t)"
proof (induction gbody)
  case Nil
  then show ?case by (simp add: index_map_def)
next
  case (Cons e gbody)
  obtain topic tbody where e: "e = (topic, tbody)" by (cases e)
  show ?case
  proof (cases "topic = t")
    case True
    with Cons.prems e have "t \<notin> fst ` set gbody" by auto
    then show ?thesis using True e by (simp add: topic_partitions_absent index_map_def)
  next
    case False
    with Cons e show ?thesis by (simp add: index_map_def)
  qed
qed

lemma count_list_concat:
  "count_list (concat xss) x = sum_list (map (\<lambda>xs. count_list xs x) xss)"
  by (induction xss) simp_all

lemma count_list_keys:
  "distinct (map fst tbody) \<Longrightarrow>
   count_list (map fst tbody) p = (if map_of tbody p \<noteq> None then 1 else 0)"
proof (induction tbody)
  case Nil
  then show ?case by simp
next
  case (Cons e tbody)
  then show ?case by (cases e) (auto simp add: map_of_eq_None_iff image_iff)
qed

lemma sum_list_indicator:
  "sum_list (map (\<lambda>x. if P x then 1 else 0) xs) = length (filter P xs)"
  by (induction xs) simp_all

lemma snapshot_count:
  assumes "unique_keys store"
  shows "count_list (index_map (getTopicsAndPartitions store) t) p =
     length (filter (\<lambda>(grp, gbody). map_of (index_map gbody t) p \<noteq> None) store)"
proof -
  from assms have all1: "\<And>g gb. (g, gb) \<in> set store \<Longrightarrow> distinct (map fst gb)"
    and all2: "\<And>g gb t tb. (g, gb) \<in> set store \<Longrightarrow> (t, tb) \<in> set gb \<Longrightarrow> distinct (map fst tb)"
    by (auto simp add: unique_keys_def list_all_iff)
  have one: "count_list (concat (map (\<lambda>(topic, tbody). if topic = t then map fst tbody else []) gb)) p
      = (if map_of (index_map gb t) p \<noteq> None then 1 else 0)"
    if "(g, gb) \<in> set store" for g gb
  proof -
    have d: "distinct (map fst (index_map gb t))"
      using index_map_in_set [of gb t] all2 [OF that] by fastforce
    show ?thesis
      by (simp only: topic_partitions_index [OF all1 [OF that]] count_list_keys [OF d])
  qed
  have "count_list (index_map (getTopicsAndPartitions store) t) p =
      sum_list (map (\<lambda>(g, gb). count_list
         (concat (map (\<lambda>(topic, tbody). if topic = t then map fst tbody else []) gb)) p) store)"
    by (simp add: index_map_getTopicsAndPartitions count_list_concat comp_def case_prod_unfold)
  also have "\<dots> = sum_list (map (\<lambda>(g, gb). if map_of (index_map gb t) p \<noteq> None then 1 else 0) store)"
    by (rule arg_cong [where f = sum_list], rule map_cong) (auto simp add: one)
  also have "\<dots> = length (filter (\<lambda>(grp, gbody). map_of (index_map gbody t) p \<noteq> None) store)"
    by (simp add: sum_list_indicator [symmetric] case_prod_unfold)
  finally show ?thesis .
qed

lemma holders_set:
  assumes "distinct (map fst store)"
  shows "{g. lookupConsumerOffset store g t p \<noteq> None} =
     set (map fst (filter (\<lambda>(grp, gbody). map_of (index_map gbody t) p \<noteq> None) store))"
proof (intro set_eqI iffI)
  fix g assume "g \<in> {g. lookupConsumerOffset store g t p \<noteq> None}"
  then have l: "map_of (index_map (index_map store g) t) p \<noteq> None"
    by (simp add: lookupConsumerOffset_def)
  then have "index_map store g \<noteq> []" by (auto simp add: index_map_def)
  then have "(g, index_map store g) \<in> set store"
    using index_map_in_set [of store g] by simp
  with l show "g \<in> set (map fst (filter (\<lambda>(grp, gbody). map_of (index_map gbody t) p \<noteq> None) store))"
    by force
next
  fix g assume "g \<in> set (map fst (filter (\<lambda>(grp, gbody). map_of (index_map gbody t) p \<noteq> None) store))"
  then obtain gb where gb: "(g, gb) \<in> set store" "map_of (index_map gb t) p \<noteq> None"
    by auto
  from gb(1) assms have "index_map store g = gb" by (rule map_of_index_map)
  with gb(2) show "g \<in> {g. lookupConsumerOffset store g t p \<noteq> None}"
    by (simp add: lookupConsumerOffset_def)
qed

lemma snapshot_card:
  assumes "unique_keys store"
  shows "count_list (index_map (getTopicsAndPartitions store) t) p =
     card {g. lookupConsumerOffset store g t p \<noteq> None}"
proof -
  from assms have d: "distinct (map fst store)" by (simp add: unique_keys_def)
  then have "distinct (map fst (filter (\<lambda>(grp, gbody). map_of (index_map gbody t) p \<noteq> None) store))"
    by (rule distinct_map_filter)
  then have "card (set (map fst (filter (\<lambda>(grp, gbody). map_of (index_map gbody t) p \<noteq> None) store)))
     = length (filter (\<lambda>(grp, gbody). map_of (index_map gbody t) p \<noteq> None) store)"
    by (simp only: distinct_card length_map)
  then show ?thesis
    by (simp only: snapshot_count [OF assms] holders_set [OF d])
qed

lemma snapshot_member:
  assumes "unique_keys store"
  shows "p \<in> set (index_map (getTopicsAndPartitions store) t) \<longleftrightarrow>
     (\<exists>g. lookupConsumerOffset store g t p \<noteq> None)"
proof -
  from assms have d: "distinct (map fst store)" by (simp add: unique_keys_def)
  have "p \<in> set (index_map (getTopicsAndPartitions store) t) \<longleftrightarrow>
      count_list (index_map (getTopicsAndPartitions store) t) p \<noteq> 0"
    by (simp only: count_list_0_iff) simp
  also have "\<dots> \<longleftrightarrow> filter (\<lambda>(grp, gbody). map_of (index_map gbody t) p \<noteq> None) store \<noteq> []"
    by (simp only: snapshot_count [OF assms] length_0_conv)
  also have "\<dots> \<longleftrightarrow> {g. lookupConsumerOffset store g t p \<noteq> None} \<noteq> {}"
    by (simp only: holders_set [OF d] set_empty map_is_Nil_conv)
  finally show ?thesis by auto
qed

lemma distinct_fold_update:
  "distinct (map fst tpMap) \<Longrightarrow>
   distinct (map fst (fold (\<lambda>(partn, _) tpMap. AList.update topic (index_map tpMap topic @ [partn]) tpMap)
       tbody tpMap))"
  by (induction tbody arbitrary: tpMap) (auto simp add: distinct_update)

lemma distinct_fold_topics:
  "distinct (map fst tpMap) \<Longrightarrow>
   distinct (map fst (fold (\<lambda>(topic, tbody).
       fold (\<lambda>(partn, _) tpMap. AList.update topic (index_map tpMap topic @ [partn]) tpMap) tbody)
     gbody tpMap))"
  by (induction gbody arbitrary: tpMap) (auto simp add: distinct_fold_update)

lemma distinct_getTopicsAndPartitions:
  "distinct (map fst (getTopicsAndPartitions store))"
proof -
  have "distinct (map fst tpMap) \<Longrightarrow>
   distinct (map fst (fold (\<lambda>(grp, gbody).
       fold (\<lambda>(topic, tbody).
         fold (\<lambda>(partn, _) tpMap. AList.update topic (index_map tpMap topic @ [partn]) tpMap)
           tbody)
         gbody)
     store tpMap))" for tpMap
    by (induction store arbitrary: tpMap) (auto simp add: distinct_fold_topics)
  then show ?thesis by (simp add: getTopicsAndPartitions_def)
qed

lemma getTopicsAndPartitions_example:
  "getTopicsAndPartitions [(''g1'', [(''t'', [(0, 5)])]), (''g2'', [(''t'', [(0, 7)])])]
     = [(''t'', [0, 0])]"
  by (simp add: getTopicsAndPartitions_def index_map_def)

section \<open>Consumer Offset Table: properties\<close>

text \<open>
  C7. Upserting a key with \<open>o1\<close> and then with \<open>o2\<close> leaves its lookup at \<open>o2\<close>,
  whatever the table held before. For a table built from the empty one by any sequence of
  upserts, the lookup of a key is the offset of the last upsert of that key (absent if
  there was none), and every key is held once.
\<close>

theorem upsert_overwrites:
  "lookupConsumerOffset
     (storeConsumerOffset
        (storeConsumerOffset store
           \<lparr>Topic = topic, Partition = partn, Offset = o1, Timestamp = ts1, Group = grp\<rparr>)
        \<lparr>Topic = topic, Partition = partn, Offset = o2, Timestamp = ts2, Group = grp\<rparr>)
     grp topic partn = Some o2
   \<and> lookupConsumerOffset (fold (\<lambda>po s. storeConsumerOffset s po) commits []) g t p
       = map_of (rev (map (\<lambda>po. ((Group po, Topic po, Partition po), Offset po)) commits))
           (g, t, p)
   \<and> unique_keys (fold (\<lambda>po s. storeConsumerOffset s po) commits [])"
proof (intro conjI)
  show "lookupConsumerOffset
     (storeConsumerOffset
        (storeConsumerOffset store
           \<lparr>Topic = topic, Partition = partn, Offset = o1, Timestamp = ts1, Group = grp\<rparr>)
        \<lparr>Topic = topic, Partition = partn, Offset = o2, Timestamp = ts2, Group = grp\<rparr>)
     grp topic partn = Some o2"
    by (simp add: lookup_storeConsumerOffset)
  show "lookupConsumerOffset (fold (\<lambda>po s. storeConsumerOffset s po) commits []) g t p
       = map_of (rev (map (\<lambda>po. ((Group po, Topic po, Partition po), Offset po)) commits))
           (g, t, p)"
    by (simp add: lookup_fold lookupConsumerOffset_Nil split: option.split)
  show "unique_keys (fold (\<lambda>po s. storeConsumerOffset s po) commits [])"
    by (rule unique_keys_fold [OF unique_keys_Nil])
qed

theorem upsert_overwrites_witness:
  "lookupConsumerOffset
     (storeConsumerOffset
        (storeConsumerOffset []
           \<lparr>Topic = ''t1'', Partition = 7, Offset = 50, Timestamp = 8, Group = ''g''\<rparr>)
        \<lparr>Topic = ''t1'', Partition = 7, Offset = 51, Timestamp = 9, Group = ''g''\<rparr>)
     ''g'' ''t1'' 7 = Some 51
   \<and> lookupConsumerOffset
        (fold (\<lambda>po s. storeConsumerOffset s po)
           [\<lparr>Topic = ''t1'', Partition = 7, Offset = 50, Timestamp = 8, Group = ''g''\<rparr>,
            \<lparr>Topic = ''t1'', Partition = 7, Offset = 51, Timestamp = 9, Group = ''g''\<rparr>] [])
        ''g'' ''t1'' 7 = Some 51
   \<and> unique_keys
        (fold (\<lambda>po s. storeConsumerOffset s po)
           [\<lparr>Topic = ''t1'', Partition = 7, Offset = 50, Timestamp = 8, Group = ''g''\<rparr>,
            \<lparr>Topic = ''t1'', Partition = 7, Offset = 51, Timestamp = 9, Group = ''g''\<rparr>] [])"
  using upsert_overwrites [where store = "[]" and topic = "''t1''" and partn = 7 and grp = "''g''"
      and ?o1.0 = 50 and ?o2.0 = 51 and ?ts1.0 = 8 and ?ts2.0 = 9 and g = "''g''" and t = "''t1''"
      and p = 7
      and commits = "[\<lparr>Topic = ''t1'', Partition = 7, Offset = 50, Timestamp = 8, Group = ''g''\<rparr>,
            \<lparr>Topic = ''t1'', Partition = 7, Offset = 51, Timestamp = 9, Group = ''g''\<rparr>]"]
  by simp

text \<open>
  C6. \<open>getTopicsAndPartitions\<close> does not return a set: it appends the partition to the
  topic's slice once for every group that holds it. With two groups on partition 0 of
  topic \<open>t\<close>, the slice of \<open>t\<close> is \<open>[0, 0]\<close>.
\<close>

theorem snapshot_repeats_shared_pair:
  "lookupConsumerOffset [(''g1'', [(''t'', [(0, 5)])]), (''g2'', [(''t'', [(0, 7)])])] ''g1'' ''t'' 0 = Some 5
   \<and> lookupConsumerOffset [(''g1'', [(''t'', [(0, 5)])]), (''g2'', [(''t'', [(0, 7)])])] ''g2'' ''t'' 0 = Some 7
   \<and> getTopicsAndPartitions [(''g1'', [(''t'', [(0, 5)])]), (''g2'', [(''t'', [(0, 7)])])]
       = [(''t'', [0, 0])]
   \<and> count_list
        (index_map (getTopicsAndPartitions
           [(''g1'', [(''t'', [(0, 5)])]), (''g2'', [(''t'', [(0, 7)])])]) ''t'') 0 = 2"
  by (simp add: getTopicsAndPartitions_example) (simp add: lookupConsumerOffset_def index_map_def)

text \<open>
  C6, as the code has it. The snapshot maps each topic (once) to a slice of partitions; a
  pair is in it if and only if some group has an entry for it, and it appears once for
  every group that has one.
\<close>

theorem snapshot_once_per_group:
  assumes "unique_keys store"
  shows "(partn \<in> set (index_map (getTopicsAndPartitions store) topic) \<longleftrightarrow>
            (\<exists>grp. lookupConsumerOffset store grp topic partn \<noteq> None))
     \<and> count_list (index_map (getTopicsAndPartitions store) topic) partn
           = card {grp. lookupConsumerOffset store grp topic partn \<noteq> None}
     \<and> distinct (map fst (getTopicsAndPartitions store))"
  using snapshot_member [OF assms] snapshot_card [OF assms] distinct_getTopicsAndPartitions
  by blast

theorem snapshot_once_per_group_witness:
  "unique_keys [(''g1'', [(''t'', [(0, 5)])]), (''g2'', [(''t'', [(0, 7)])])]
   \<and> (\<exists>grp. lookupConsumerOffset [(''g1'', [(''t'', [(0, 5)])]), (''g2'', [(''t'', [(0, 7)])])]
                grp ''t'' 0 \<noteq> None)
   \<and> card {grp. lookupConsumerOffset [(''g1'', [(''t'', [(0, 5)])]), (''g2'', [(''t'', [(0, 7)])])]
                grp ''t'' 0 \<noteq> None} = 2"
proof -
  have u: "unique_keys [(''g1'', [(''t'', [(0, 5)])]), (''g2'', [(''t'', [(0, 7)])])]"
    by (simp add: unique_keys_def)
  show ?thesis
    using u snapshot_once_per_group [OF u, where topic = "''t''" and partn = 0]
    by (simp add: getTopicsAndPartitions_example index_map_def)
qed

section \<open>Lag Reporter: lemmas\<close>

lemma fmt_d_examples:
  "fmt_d 0 = ''0''" "fmt_d 7 = ''7''" "fmt_d 12 = ''12''" "fmt_d (- 3) = ''-3''"
  "fmt_d 2147483647 = ''2147483647''"
  by (simp_all add: fmt_d_def digits.simps char_of_def bit_0)

lemma computeLag_member:
  "e \<in> set (computeLag prefix bs cs) \<longleftrightarrow>
     (\<exists>grp gbody topic tbody partn c.
        (grp, gbody) \<in> set cs \<and> (topic, tbody) \<in> set gbody \<and> (partn, c) \<in> set tbody \<and>
        e \<in> set (computeLag_entry prefix bs cs grp topic partn))"
  by (auto simp add: computeLag_def) blast+

lemma lookup_entry:
  assumes "lookupConsumerOffset cs grp topic partn = Some c"
  shows "(grp, index_map cs grp) \<in> set cs"
    and "(topic, index_map (index_map cs grp) topic) \<in> set (index_map cs grp)"
    and "(partn, c) \<in> set (index_map (index_map cs grp) topic)"
    and "index_offset (index_map (index_map cs grp) topic) partn = c"
proof -
  from assms have m: "map_of (index_map (index_map cs grp) topic) partn = Some c"
    by (simp add: lookupConsumerOffset_def)
  then show "(partn, c) \<in> set (index_map (index_map cs grp) topic)" by (rule map_of_SomeD)
  then have ne: "index_map (index_map cs grp) topic \<noteq> []" by auto
  then show "(topic, index_map (index_map cs grp) topic) \<in> set (index_map cs grp)"
    using index_map_in_set [of "index_map cs grp" topic] by simp
  then have "index_map cs grp \<noteq> []" by auto
  then show "(grp, index_map cs grp) \<in> set cs"
    using index_map_in_set [of cs grp] by simp
  from m show "index_offset (index_map (index_map cs grp) topic) partn = c"
    by (simp add: index_offset_def)
qed

lemma entry_lookup:
  assumes "unique_keys cs" "(grp, gbody) \<in> set cs" "(topic, tbody) \<in> set gbody"
    "(partn, c) \<in> set tbody"
  shows "lookupConsumerOffset cs grp topic partn = Some c"
proof -
  from assms(1) have d: "distinct (map fst cs)"
    and all1: "\<And>g gb. (g, gb) \<in> set cs \<Longrightarrow> distinct (map fst gb)"
    and all2: "\<And>g gb t tb. (g, gb) \<in> set cs \<Longrightarrow> (t, tb) \<in> set gb \<Longrightarrow> distinct (map fst tb)"
    by (auto simp add: unique_keys_def list_all_iff)
  have g: "index_map cs grp = gbody" using assms(2) d by (rule map_of_index_map)
  have t: "index_map gbody topic = tbody" using assms(3) all1 [OF assms(2)] by (rule map_of_index_map)
  have "map_of tbody partn = Some c" using all2 [OF assms(2,3)] assms(4) by simp
  with g t show ?thesis by (simp add: lookupConsumerOffset_def)
qed

lemma computeLag_present:
  assumes "lookupConsumerOffset cs grp topic partn = Some c"
  shows "set (computeLag_entry prefix bs cs grp topic partn) \<subseteq> set (computeLag prefix bs cs)"
proof
  fix e assume "e \<in> set (computeLag_entry prefix bs cs grp topic partn)"
  with lookup_entry(1-3) [OF assms] show "e \<in> set (computeLag prefix bs cs)"
    unfolding computeLag_member by blast
qed

lemma index_offset_lookupBroker:
  "index_offset (index_map bs topic) partn =
     (case lookupBrokerOffset bs topic partn of None \<Rightarrow> 0 | Some v \<Rightarrow> v)"
  by (simp add: index_offset_def lookupBrokerOffset_def)

lemma computeLag_entry_eq:
  assumes "lookupConsumerOffset cs grp topic partn = Some c"
    and "b = (case lookupBrokerOffset bs topic partn of None \<Rightarrow> 0 | Some v \<Rightarrow> v)"
    and "stat = prefix @ ''.group.'' @ grp @ ''.'' @ topic @ ''.'' @ fmt_d (sint partn)"
  shows "computeLag_entry prefix bs cs grp topic partn =
     (if b - c <s 0 then [NegativeLag stat (b - c)]
      else [Gauge stat (b - c), LagReport topic partn b c (b - c) grp])"
  using assms(2,3) lookup_entry(4) [OF assms(1)]
  by (simp add: computeLag_entry_def index_offset_lookupBroker Let_def)

lemma computeLag_example_positive:
  "computeLag ''kqm'' [(''t'', [(0, 110)])] [(''g'', [(''t'', [(0, 100)])])]
     = [Gauge ''kqm.group.g.t.0'' 10, LagReport ''t'' 0 110 100 10 ''g'']"
  by (simp add: computeLag_def computeLag_entry_def index_map_def index_offset_def
        fmt_d_examples word_sless_alt)

lemma computeLag_example_negative:
  "computeLag ''kqm'' [(''t'', [(0, 90)])] [(''g'', [(''t'', [(0, 100)])])]
     = [NegativeLag ''kqm.group.g.t.0'' (- 10)]"
  by (simp add: computeLag_def computeLag_entry_def index_map_def index_offset_def
        fmt_d_examples word_sless_alt)

lemma computeLag_example_absent:
  "computeLag ''kqm'' [] [(''g'', [(''t'', [(0, 100)])])]
     = [NegativeLag ''kqm.group.g.t.0'' (- 100)]"
  by (simp add: computeLag_def computeLag_entry_def index_map_def index_offset_def
        fmt_d_examples word_sless_alt)

lemma computeLag_example_orders:
  "computeLag ''kqm'' [(''orders'', [(0, 50)])] [(''g1'', [(''orders'', [(0, 50)])])]
     = [Gauge ''kqm.group.g1.orders.0'' 0, LagReport ''orders'' 0 50 50 0 ''g1'']"
  by (simp add: computeLag_def computeLag_entry_def index_map_def index_offset_def
        fmt_d_examples word_sless_alt)

lemma Gauge_in_entry:
  "Gauge stat v \<in> set (computeLag_entry prefix bs cs grp topic partn) \<longleftrightarrow>
     stat = prefix @ ''.group.'' @ grp @ ''.'' @ topic @ ''.'' @ fmt_d (sint partn) \<and>
     v = index_offset (index_map bs topic) partn
         - index_offset (index_map (index_map cs grp) topic) partn \<and>
     \<not> v <s 0"
  by (auto simp add: computeLag_entry_def Let_def)

lemma Gauge_nonnegative:
  "Gauge stat v \<in> set (computeLag prefix bs cs) \<Longrightarrow> \<not> v <s 0"
  by (auto simp add: computeLag_member Gauge_in_entry)

section \<open>Lag Reporter: properties\<close>

text \<open>
  C4. For every (group, topic, partition) in the Consumer Offset Table the reporter computes
  the lag as the broker offset of (topic, partition), 0 when the Broker Offset Table has
  none, minus the consumer offset, in \<open>int64\<close> arithmetic: what it does for the entry
  (the gauge and the report line, or the negative-lag line) carries exactly that value.
  Broker offset 110 and consumer offset 100 give lag 10.
\<close>

theorem lag_is_broker_minus_consumer:
  assumes "lookupConsumerOffset consumerOffsetMap grp topic partn = Some c"
    and "b = (case lookupBrokerOffset brokerOffsetMap topic partn of None \<Rightarrow> 0 | Some v \<Rightarrow> v)"
    and "stat = prefix @ ''.group.'' @ grp @ ''.'' @ topic @ ''.'' @ fmt_d (sint partn)"
  shows "computeLag_entry prefix brokerOffsetMap consumerOffsetMap grp topic partn =
           (if b - c <s 0 then [NegativeLag stat (b - c)]
            else [Gauge stat (b - c), LagReport topic partn b c (b - c) grp])
     \<and> set (computeLag_entry prefix brokerOffsetMap consumerOffsetMap grp topic partn)
           \<subseteq> set (computeLag prefix brokerOffsetMap consumerOffsetMap)"
  using computeLag_entry_eq [OF assms] computeLag_present [OF assms(1)] by blast

theorem lag_is_broker_minus_consumer_witness:
  "Gauge ''kqm.group.g.t.0'' 10
      \<in> set (computeLag ''kqm'' [(''t'', [(0, 110)])] [(''g'', [(''t'', [(0, 100)])])])
   \<and> LagReport ''t'' 0 110 100 10 ''g''
      \<in> set (computeLag ''kqm'' [(''t'', [(0, 110)])] [(''g'', [(''t'', [(0, 100)])])])
   \<and> NegativeLag ''kqm.group.g.t.0'' (0 - 100)
      \<in> set (computeLag ''kqm'' [] [(''g'', [(''t'', [(0, 100)])])])"
proof -
  have l: "lookupConsumerOffset [(''g'', [(''t'', [(0, 100)])])] ''g'' ''t'' 0 = Some 100"
    by (simp add: lookupConsumerOffset_def index_map_def)
  have b1: "(110 :: int64) = (case lookupBrokerOffset [(''t'', [(0, 110)])] ''t'' 0 of
      None \<Rightarrow> 0 | Some v \<Rightarrow> v)"
    by (simp add: lookupBrokerOffset_def index_map_def)
  have b2: "(0 :: int64) = (case lookupBrokerOffset [] ''t'' 0 of None \<Rightarrow> 0 | Some v \<Rightarrow> v)"
    by (simp add: lookupBrokerOffset_def index_map_def)
  have s: "''kqm.group.g.t.0'' = ''kqm'' @ ''.group.'' @ ''g'' @ ''.'' @ ''t'' @ ''.'' @ fmt_d (sint (0 :: int32))"
    by (simp add: fmt_d_examples)
  show ?thesis
    using lag_is_broker_minus_consumer [OF l b1 s] lag_is_broker_minus_consumer [OF l b2 s]
    by (auto simp add: word_sless_alt)
qed

text \<open>
  C5. A negative lag is not sent to the metrics sink: all the reporter does for such an
  entry is log the "Negative Lag" line, and no gauge of the whole run has a negative
  value. For an entry with a lag of 0 or more the gauge is sent.
\<close>

theorem negative_lag_not_emitted:
  "(Gauge stat v \<in> set (computeLag prefix bs cs) \<longrightarrow> \<not> v <s 0)
   \<and> (lookupConsumerOffset cs grp topic partn = Some c \<and>
        lag = (case lookupBrokerOffset bs topic partn of None \<Rightarrow> 0 | Some b \<Rightarrow> b) - c \<and>
        name = prefix @ ''.group.'' @ grp @ ''.'' @ topic @ ''.'' @ fmt_d (sint partn) \<longrightarrow>
        (if lag <s 0
         then computeLag_entry prefix bs cs grp topic partn = [NegativeLag name lag] \<and>
              NegativeLag name lag \<in> set (computeLag prefix bs cs) \<and>
              Gauge name lag \<notin> set (computeLag prefix bs cs)
         else Gauge name lag \<in> set (computeLag_entry prefix bs cs grp topic partn) \<and>
              Gauge name lag \<in> set (computeLag prefix bs cs)))"
proof (intro conjI impI)
  assume "Gauge stat v \<in> set (computeLag prefix bs cs)"
  then show "\<not> v <s 0" by (rule Gauge_nonnegative)
next
  assume a: "lookupConsumerOffset cs grp topic partn = Some c \<and>
        lag = (case lookupBrokerOffset bs topic partn of None \<Rightarrow> 0 | Some b \<Rightarrow> b) - c \<and>
        name = prefix @ ''.group.'' @ grp @ ''.'' @ topic @ ''.'' @ fmt_d (sint partn)"
  then have l: "lookupConsumerOffset cs grp topic partn = Some c" by simp
  have e: "computeLag_entry prefix bs cs grp topic partn =
     (if lag <s 0 then [NegativeLag name lag]
      else [Gauge name lag,
            LagReport topic partn (case lookupBrokerOffset bs topic partn of None \<Rightarrow> 0 | Some b \<Rightarrow> b)
              c lag grp])"
    using computeLag_entry_eq [OF l refl refl, where bs = bs and prefix = prefix] a by simp
  show "if lag <s 0
         then computeLag_entry prefix bs cs grp topic partn = [NegativeLag name lag] \<and>
              NegativeLag name lag \<in> set (computeLag prefix bs cs) \<and>
              Gauge name lag \<notin> set (computeLag prefix bs cs)
         else Gauge name lag \<in> set (computeLag_entry prefix bs cs grp topic partn) \<and>
              Gauge name lag \<in> set (computeLag prefix bs cs)"
  proof (cases "lag <s 0")
    case True
    with e have "computeLag_entry prefix bs cs grp topic partn = [NegativeLag name lag]" by simp
    moreover from this have "NegativeLag name lag \<in> set (computeLag prefix bs cs)"
      using computeLag_present [OF l, where prefix = prefix and bs = bs] by auto
    moreover have "Gauge name lag \<notin> set (computeLag prefix bs cs)"
      using True Gauge_nonnegative by blast
    ultimately show ?thesis using True by simp
  next
    case False
    with e have "Gauge name lag \<in> set (computeLag_entry prefix bs cs grp topic partn)" by simp
    moreover from this have "Gauge name lag \<in> set (computeLag prefix bs cs)"
      using computeLag_present [OF l, where prefix = prefix and bs = bs] by auto
    ultimately show ?thesis using False by simp
  qed
qed

theorem negative_lag_not_emitted_witness:
  "\<not> (10 :: int64) <s 0
   \<and> Gauge ''kqm.group.g.t.0'' 10
       \<in> set (computeLag ''kqm'' [(''t'', [(0, 110)])] [(''g'', [(''t'', [(0, 100)])])])
   \<and> NegativeLag ''kqm.group.g.t.0'' (90 - 100)
       \<in> set (computeLag ''kqm'' [(''t'', [(0, 90)])] [(''g'', [(''t'', [(0, 100)])])])
   \<and> Gauge ''kqm.group.g.t.0'' (90 - 100)
       \<notin> set (computeLag ''kqm'' [(''t'', [(0, 90)])] [(''g'', [(''t'', [(0, 100)])])])"
proof -
  have l: "lookupConsumerOffset [(''g'', [(''t'', [(0, 100)])])] ''g'' ''t'' 0 = Some 100"
    by (simp add: lookupConsumerOffset_def index_map_def)
  have b1: "(110 :: int64) - 100 = (case lookupBrokerOffset [(''t'', [(0, 110)])] ''t'' 0 of
      None \<Rightarrow> 0 | Some v \<Rightarrow> v) - 100"
    by (simp add: lookupBrokerOffset_def index_map_def)
  have b2: "(90 :: int64) - 100 = (case lookupBrokerOffset [(''t'', [(0, 90)])] ''t'' 0 of
      None \<Rightarrow> 0 | Some v \<Rightarrow> v) - 100"
    by (simp add: lookupBrokerOffset_def index_map_def)
  have s: "''kqm.group.g.t.0'' = ''kqm'' @ ''.group.'' @ ''g'' @ ''.'' @ ''t'' @ ''.'' @ fmt_d (sint (0 :: int32))"
    by (simp add: fmt_d_examples)
  have g: "Gauge ''kqm.group.g.t.0'' 10
       \<in> set (computeLag ''kqm'' [(''t'', [(0, 110)])] [(''g'', [(''t'', [(0, 100)])])])"
    by (simp add: computeLag_example_positive)
  have n1: "\<not> (110 :: int64) - 100 <s 0" by (simp add: word_sless_alt)
  have n2: "(90 :: int64) - 100 <s 0" by (simp add: word_sless_alt)
  from negative_lag_not_emitted [where stat = "''kqm.group.g.t.0''" and v = 10 and prefix = "''kqm''"
      and bs = "[(''t'', [(0, 110)])]" and cs = "[(''g'', [(''t'', [(0, 100)])])]"
      and grp = "''g''" and topic = "''t''" and partn = 0 and c = 100 and lag = "110 - 100"
      and name = "''kqm.group.g.t.0''"] g l b1 s n1
  have p: "\<not> (10 :: int64) <s 0 \<and> Gauge ''kqm.group.g.t.0'' (110 - 100)
       \<in> set (computeLag ''kqm'' [(''t'', [(0, 110)])] [(''g'', [(''t'', [(0, 100)])])])"
    by (simp only: if_False) blast
  from negative_lag_not_emitted [where stat = "''kqm.group.g.t.0''" and v = 10 and prefix = "''kqm''"
      and bs = "[(''t'', [(0, 90)])]" and cs = "[(''g'', [(''t'', [(0, 100)])])]"
      and grp = "''g''" and topic = "''t''" and partn = 0 and c = 100 and lag = "90 - 100"
      and name = "''kqm.group.g.t.0''"] l b2 s n2
  have q: "NegativeLag ''kqm.group.g.t.0'' (90 - 100)
       \<in> set (computeLag ''kqm'' [(''t'', [(0, 90)])] [(''g'', [(''t'', [(0, 100)])])])
   \<and> Gauge ''kqm.group.g.t.0'' (90 - 100)
       \<notin> set (computeLag ''kqm'' [(''t'', [(0, 90)])] [(''g'', [(''t'', [(0, 100)])])])"
    by (simp only: if_True) blast
  from p q g show ?thesis by blast
qed

text \<open>
  C9. The stat name of every gauge is the prefix, \<open>group\<close>, the group, the topic and the
  partition in decimal, joined by dots, for an entry of the table, and the gauge of an
  entry with a lag of 0 or more has that name.
\<close>

theorem gauge_stat_name:
  assumes "unique_keys cs"
  shows "(Gauge stat v \<in> set (computeLag prefix bs cs) \<longrightarrow>
            (\<exists>grp topic partn c.
               lookupConsumerOffset cs grp topic partn = Some c \<and>
               stat = prefix @ ''.group.'' @ grp @ ''.'' @ topic @ ''.'' @ fmt_d (sint partn) \<and>
               v = (case lookupBrokerOffset bs topic partn of None \<Rightarrow> 0 | Some b \<Rightarrow> b) - c))
     \<and> (lookupConsumerOffset cs g t p = Some c' \<and>
          \<not> (case lookupBrokerOffset bs t p of None \<Rightarrow> 0 | Some b \<Rightarrow> b) - c' <s 0 \<longrightarrow>
            Gauge (prefix @ ''.group.'' @ g @ ''.'' @ t @ ''.'' @ fmt_d (sint p))
              ((case lookupBrokerOffset bs t p of None \<Rightarrow> 0 | Some b \<Rightarrow> b) - c')
              \<in> set (computeLag prefix bs cs))"
proof (intro conjI impI)
  assume "Gauge stat v \<in> set (computeLag prefix bs cs)"
  then obtain grp gbody topic tbody partn c where
    m: "(grp, gbody) \<in> set cs" "(topic, tbody) \<in> set gbody" "(partn, c) \<in> set tbody"
    and e: "Gauge stat v \<in> set (computeLag_entry prefix bs cs grp topic partn)"
    unfolding computeLag_member by blast
  have l: "lookupConsumerOffset cs grp topic partn = Some c"
    using assms m by (rule entry_lookup)
  from e lookup_entry(4) [OF l]
  have "stat = prefix @ ''.group.'' @ grp @ ''.'' @ topic @ ''.'' @ fmt_d (sint partn) \<and>
        v = (case lookupBrokerOffset bs topic partn of None \<Rightarrow> 0 | Some b \<Rightarrow> b) - c"
    by (simp add: Gauge_in_entry index_offset_lookupBroker)
  with l show "\<exists>grp topic partn c.
               lookupConsumerOffset cs grp topic partn = Some c \<and>
               stat = prefix @ ''.group.'' @ grp @ ''.'' @ topic @ ''.'' @ fmt_d (sint partn) \<and>
               v = (case lookupBrokerOffset bs topic partn of None \<Rightarrow> 0 | Some b \<Rightarrow> b) - c"
    by blast
next
  assume a: "lookupConsumerOffset cs g t p = Some c' \<and>
          \<not> (case lookupBrokerOffset bs t p of None \<Rightarrow> 0 | Some b \<Rightarrow> b) - c' <s 0"
  then have l: "lookupConsumerOffset cs g t p = Some c'" by simp
  from a lookup_entry(4) [OF l]
  have "Gauge (prefix @ ''.group.'' @ g @ ''.'' @ t @ ''.'' @ fmt_d (sint p))
              ((case lookupBrokerOffset bs t p of None \<Rightarrow> 0 | Some b \<Rightarrow> b) - c')
          \<in> set (computeLag_entry prefix bs cs g t p)"
    by (simp add: Gauge_in_entry index_offset_lookupBroker)
  then show "Gauge (prefix @ ''.group.'' @ g @ ''.'' @ t @ ''.'' @ fmt_d (sint p))
              ((case lookupBrokerOffset bs t p of None \<Rightarrow> 0 | Some b \<Rightarrow> b) - c')
              \<in> set (computeLag prefix bs cs)"
    using computeLag_present [OF l, where prefix = prefix and bs = bs] by blast
qed

theorem gauge_stat_name_witness:
  "unique_keys [(''g1'', [(''orders'', [(12, 50)])])]
   \<and> (\<exists>grp topic partn c.
         lookupConsumerOffset [(''g1'', [(''orders'', [(12, 50)])])] grp topic partn = Some c \<and>
         ''kqm.group.g1.orders.12''
           = ''kqm'' @ ''.group.'' @ grp @ ''.'' @ topic @ ''.'' @ fmt_d (sint partn))
   \<and> Gauge ''kqm.group.g1.orders.12'' 0
       \<in> set (computeLag ''kqm'' [(''orders'', [(12, 50)])] [(''g1'', [(''orders'', [(12, 50)])])])"
proof -
  have u: "unique_keys [(''g1'', [(''orders'', [(12, 50)])])]"
    by (simp add: unique_keys_def)
  have l: "lookupConsumerOffset [(''g1'', [(''orders'', [(12, 50)])])] ''g1'' ''orders'' 12 = Some 50"
    by (simp add: lookupConsumerOffset_def index_map_def)
  have b: "(case lookupBrokerOffset [(''orders'', [(12, 50)])] ''orders'' 12 of
      None \<Rightarrow> 0 | Some b \<Rightarrow> b) = (50 :: int64)"
    by (simp add: lookupBrokerOffset_def index_map_def)
  have s: "''kqm'' @ ''.group.'' @ ''g1'' @ ''.'' @ ''orders'' @ ''.'' @ fmt_d (sint (12 :: int32))
      = ''kqm.group.g1.orders.12''"
    by (simp add: fmt_d_examples)
  have n: "\<not> (50 :: int64) - 50 <s 0" by (simp add: word_sless_alt)
  from gauge_stat_name [OF u, where prefix = "''kqm''" and bs = "[(''orders'', [(12, 50)])]"
      and g = "''g1''" and t = "''orders''" and p = 12 and c' = 50
      and stat = "''kqm.group.g1.orders.12''" and v = 0] l n
  have g: "Gauge ''kqm.group.g1.orders.12'' 0
       \<in> set (computeLag ''kqm'' [(''orders'', [(12, 50)])] [(''g1'', [(''orders'', [(12, 50)])])])"
    by (simp only: b s) simp
  with gauge_stat_name [OF u, where prefix = "''kqm''" and bs = "[(''orders'', [(12, 50)])]"
      and stat = "''kqm.group.g1.orders.12''" and v = 0]
  have "\<exists>grp topic partn c.
         lookupConsumerOffset [(''g1'', [(''orders'', [(12, 50)])])] grp topic partn = Some c \<and>
         ''kqm.group.g1.orders.12''
           = ''kqm'' @ ''.group.'' @ grp @ ''.'' @ topic @ ''.'' @ fmt_d (sint partn)"
    by blast
  with u g show ?thesis by blast
qed

section \<open>Broker Offset Poller: the request batches\<close>

text \<open>
  The map of requests has one entry per leader. The request of a leader holds the pairs
  led by it that the loops visit after the first such pair: the branch that creates a
  leader's request adds no block for the pair that created it.
\<close>

lemma set_AddBlock: "set (AddBlock r topic partn) = insert (topic, partn) (set r)"
  by (auto simp add: AddBlock_def)

lemma fold_pairs:
  "fold (\<lambda>(topic, partitions). fold (addLeaderBlock Leader topic) partitions) tpMap reqs =
   fold (\<lambda>(topic, partn). addLeaderBlock Leader topic partn)
     (concat (map (\<lambda>(topic, partitions). map (Pair topic) partitions) tpMap)) reqs"
proof (induction tpMap arbitrary: reqs)
  case Nil
  then show ?case by simp
next
  case (Cons e tpMap)
  obtain topic partitions where e: "e = (topic, partitions)" by (cases e)
  have "fold (addLeaderBlock Leader topic) partitions r =
        fold (\<lambda>(topic, partn). addLeaderBlock Leader topic partn) (map (Pair topic) partitions) r"
    for r
    by (induction partitions arbitrary: r) simp_all
  then show ?case by (simp add: e Cons)
qed

lemma requests_of_leader:
  "map_option set (map_of (fold (\<lambda>(topic, partn). addLeaderBlock Leader topic partn) pairs reqs) b) =
     (case map_of reqs b of
        Some r \<Rightarrow> Some (set r \<union> set (filter (\<lambda>(topic, partn). Leader topic partn = Some b) pairs))
      | None \<Rightarrow>
          (case filter (\<lambda>(topic, partn). Leader topic partn = Some b) pairs of
             [] \<Rightarrow> None
           | first # others \<Rightarrow> Some (set others)))"
proof (induction pairs arbitrary: reqs)
  case Nil
  then show ?case by (simp split: option.split)
next
  case (Cons e pairs)
  obtain topic partn where e: "e = (topic, partn)" by (cases e)
  let ?F = "\<lambda>(topic, partn). addLeaderBlock Leader topic partn"
  let ?P = "\<lambda>(topic, partn). Leader topic partn = Some b"
  have step: "fold ?F (e # pairs) reqs = fold ?F pairs (addLeaderBlock Leader topic partn reqs)"
    by (simp add: e)
  have flt: "filter ?P (e # pairs) =
      (if Leader topic partn = Some b then (topic, partn) # filter ?P pairs else filter ?P pairs)"
    by (simp add: e)
  have reqs': "map_of (addLeaderBlock Leader topic partn reqs) b =
      (if Leader topic partn = Some b
       then (case map_of reqs b of None \<Rightarrow> Some [] | Some r \<Rightarrow> Some (AddBlock r topic partn))
       else map_of reqs b)"
    by (auto simp add: addLeaderBlock_def update_conv' split: option.split)
  show ?case
    unfolding step flt Cons.IH reqs'
    by (auto simp add: set_AddBlock split: option.split list.split)
qed

lemma GetBrokerOffsets_requests_blocks:
  "map_option set (map_of (GetBrokerOffsets_requests Leader store) b) =
     (case filter (\<lambda>(topic, partn). Leader topic partn = Some b)
             (concat (map (\<lambda>(topic, partitions). map (Pair topic) partitions)
                (getTopicsAndPartitions store))) of
        [] \<Rightarrow> None
      | first # others \<Rightarrow> Some (set others))"
  by (simp add: GetBrokerOffsets_requests_def fold_pairs requests_of_leader)

lemma distinct_addLeaderBlock:
  "distinct (map fst reqs) \<Longrightarrow> distinct (map fst (addLeaderBlock Leader topic partn reqs))"
  by (simp add: addLeaderBlock_def distinct_update split: option.split)

lemma one_request_per_leader:
  "distinct (map fst (GetBrokerOffsets_requests Leader store))"
proof -
  have "distinct (map fst reqs) \<Longrightarrow>
      distinct (map fst (fold (\<lambda>(topic, partn). addLeaderBlock Leader topic partn) pairs reqs))"
    for pairs reqs
    by (induction pairs arbitrary: reqs) (auto simp add: distinct_addLeaderBlock)
  then show ?thesis by (simp add: GetBrokerOffsets_requests_def fold_pairs)
qed

text \<open>
  C1. With \<open>(t1,0)\<close> and \<open>(t2,0)\<close> led by broker 1 and \<open>(t1,1)\<close> by broker 2, the
  poller builds one request for each broker, but the request for broker 1 holds
  \<open>(t2,0)\<close> only and the request for broker 2 holds no block: each leader's first pair
  is left out.
\<close>

theorem first_block_of_each_leader_missing:
  "getTopicsAndPartitions [(''g'', [(''t1'', [(0, 5), (1, 6)]), (''t2'', [(0, 7)])])]
     = [(''t1'', [0, 1]), (''t2'', [0])]
   \<and> GetBrokerOffsets_requests
        (\<lambda>topic partn. if topic = ''t1'' \<and> partn = 1 then Some 2 else Some 1)
        [(''g'', [(''t1'', [(0, 5), (1, 6)]), (''t2'', [(0, 7)])])]
     = [(1, [(''t2'', 0)]), (2, [])]"
  by (simp add: GetBrokerOffsets_requests_def getTopicsAndPartitions_def addLeaderBlock_def
        AddBlock_def index_map_def)

end
